theory Spec2Isabelle
  imports Main "HOL-Library.Sublist"
begin

section \<open>JavaScript values\<close>

text \<open>
  The engine stores and passes values of TypeScript type \<open>any\<close>. They are modelled as
  trees: the primitives, arrays, plain objects (the list of their own enumerable
  string-keyed properties, in the order in which they were created; the prototype is not
  part of the tree), and the two container classes the snapshot code treats specially,
  \<open>Set\<close> and \<open>Map\<close> (with string keys, as in \<open>Map<string, any>\<close>; both in
  insertion order). Numbers are integers here (no \<open>NaN\<close>, no fractions); objects are
  compared structurally, and two objects of a tree are never the same reference.
\<close>

datatype jsval =
    JUndef
  | JNull
  | JBool bool
  | JNum int
  | JStr string
  | JArr "jsval list"
  | JObj "(string \<times> jsval) list"
  | JSet "jsval list"
  | JMap "(string \<times> jsval) list"

text \<open>JavaScript truthiness (\<open>if (v)\<close>, \<open>a && b\<close>).\<close>

fun truthy :: "jsval \<Rightarrow> bool" where
  "truthy JUndef = False"
| "truthy JNull = False"
| "truthy (JBool b) = b"
| "truthy (JNum n) = (n \<noteq> 0)"
| "truthy (JStr s) = (s \<noteq> [])"
| "truthy _ = True"

fun isArray :: "jsval \<Rightarrow> bool" where
  "isArray (JArr xs) = True"
| "isArray _ = False"

fun isPrimitive :: "jsval \<Rightarrow> bool" where
  "isPrimitive JUndef = True"
| "isPrimitive JNull = True"
| "isPrimitive (JBool b) = True"
| "isPrimitive (JNum n) = True"
| "isPrimitive (JStr s) = True"
| "isPrimitive _ = False"

text \<open>
  Property read \<open>data.k\<close> for the two keys the snapshot code reads, \<open>type\<close> and
  \<open>value\<close>: only a plain object can own them; on every other value the read gives
  \<open>undefined\<close>.
\<close>

fun getProp :: "jsval \<Rightarrow> string \<Rightarrow> jsval" where
  "getProp (JObj kvs) k = (case map_of kvs k of Some v \<Rightarrow> v | None \<Rightarrow> JUndef)"
| "getProp _ k = JUndef"

text \<open>
  \<open>new Set(array)\<close>: elements are added in order, and an element is skipped when the
  set already holds a SameValueZero-equal one. Primitives are equal when they are the same
  value; two distinct objects never are.
\<close>

definition sameValueZero :: "jsval \<Rightarrow> jsval \<Rightarrow> bool" where
  "sameValueZero a b = (isPrimitive a \<and> a = b)"

fun setAddAll :: "jsval list \<Rightarrow> jsval list \<Rightarrow> jsval list" where
  "setAddAll acc [] = acc"
| "setAddAll acc (x # xs) =
     setAddAll (if \<exists>y \<in> set acc. sameValueZero y x then acc else acc @ [x]) xs"

definition newSet :: "jsval list \<Rightarrow> jsval list" where
  "newSet xs = setAddAll [] xs"

fun arrayElems :: "jsval \<Rightarrow> jsval list" where
  "arrayElems (JArr xs) = xs"
| "arrayElems _ = []"

text \<open>
  \<open>new Map(entries)\<close>: \<open>Map.prototype.set\<close> overwrites the value of a key that is
  present, at its place, and appends a new key.
\<close>

fun mapSet :: "string \<Rightarrow> jsval \<Rightarrow> (string \<times> jsval) list \<Rightarrow> (string \<times> jsval) list" where
  "mapSet k v [] = [(k, v)]"
| "mapSet k v ((k', v') # m) =
     (if k' = k then (k, v) # m else (k', v') # mapSet k v m)"

fun mapSetAll :: "(string \<times> jsval) list \<Rightarrow> (string \<times> jsval) list \<Rightarrow> (string \<times> jsval) list" where
  "mapSetAll acc [] = acc"
| "mapSetAll acc ((k, v) # es) = mapSetAll (mapSet k v acc) es"

definition newMap :: "(string \<times> jsval) list \<Rightarrow> (string \<times> jsval) list" where
  "newMap es = mapSetAll [] es"

text \<open>
  The order in which an object enumerates its own string keys (\<open>Object.entries\<close>,
  \<open>for\<dots>in\<close>, \<open>JSON.stringify\<close>): first the keys that are array indices, that is
  canonical decimal numerals below \<open>4294967295\<close>, in ascending numeric order, then the other
  keys in the order of their creation. \<open>digitValue\<close> is the value of a decimal digit
  (its code less that of \<open>0\<close>); it is read on keys made of digits only.
\<close>

definition digitValue :: "char \<Rightarrow> nat" where
  "digitValue c = of_char c - 48"

definition digitsValue :: "string \<Rightarrow> nat" where
  "digitsValue s = foldl (\<lambda>n c. 10 * n + digitValue c) 0 s"

definition isArrayIndex :: "string \<Rightarrow> bool" where
  "isArrayIndex s =
     (s \<noteq> [] \<and> set s \<subseteq> set ''0123456789'' \<and> (s = ''0'' \<or> hd s \<noteq> CHR ''0'') \<and>
      digitsValue s < 4294967295)"

definition ownEntries :: "(string \<times> 'a) list \<Rightarrow> (string \<times> 'a) list" where
  "ownEntries kvs =
     sort_key (\<lambda>kv. digitsValue (fst kv)) (filter (\<lambda>kv. isArrayIndex (fst kv)) kvs) @
     filter (\<lambda>kv. \<not> isArrayIndex (fst kv)) kvs"

text \<open>
  The assignment \<open>result[key] = value\<close> on an ordinary object that started as \<open>{}\<close>:
  a present property keeps its place and gets the value, a new one is created last. The
  key \<open>__proto__\<close> is not created: the assignment reaches the setter of
  \<open>Object.prototype\<close>, which at most replaces the prototype.
\<close>

definition assign :: "string \<Rightarrow> jsval \<Rightarrow> (string \<times> jsval) list \<Rightarrow> (string \<times> jsval) list" where
  "assign k v obj = (if k = ''__proto__'' then obj else mapSet k v obj)"

fun assignAll :: "(string \<times> jsval) list \<Rightarrow> (string \<times> jsval) list \<Rightarrow> (string \<times> jsval) list" where
  "assignAll obj [] = obj"
| "assignAll obj ((k, v) # es) = assignAll (assign k v obj) es"

text \<open>Decimal rendering of an array index, as \<open>Object.entries\<close> produces it.\<close>

fun showNat :: "nat \<Rightarrow> string" where
  "showNat n =
     (if n < 10 then [char_of (48 + n)]
      else showNat (n div 10) @ [char_of (48 + n mod 10)])"

text \<open>
  \<open>Object.entries(v)\<close>: the own enumerable string-keyed properties. A plain object gives
  its entries in the order of enumeration, an array and a string give their indexed
  elements, every other value (numbers, booleans, Set and Map instances) gives none.
\<close>

fun objectEntries :: "jsval \<Rightarrow> (string \<times> jsval) list" where
  "objectEntries (JObj kvs) = ownEntries kvs"
| "objectEntries (JArr xs) = zip (map showNat [0 ..< length xs]) xs"
| "objectEntries (JStr s) = zip (map showNat [0 ..< length s]) (map (\<lambda>c. JStr [c]) s)"
| "objectEntries _ = []"

section \<open>Snapshot deserialization (\<open>WorkflowEngine.deserializeState\<close>)\<close>

text \<open>
  The checks are in the order of the source: \<open>null\<close>/\<open>undefined\<close> first, then the
  \<open>Set\<close> envelope, then the \<open>Map\<close> envelope, then arrays, then every other value
  whose \<open>typeof\<close> is \<open>object\<close>, then primitives. The object branch assigns the
  deserialized value of every entry, in the order of enumeration, to a fresh object. A
  \<open>Set\<close> or \<open>Map\<close> instance reaches the object branch, where \<open>Object.entries\<close>
  finds no entry.
\<close>

fun deserializeState :: "jsval \<Rightarrow> jsval" where
  "deserializeState JNull = JNull"
| "deserializeState JUndef = JUndef"
| "deserializeState (JObj kvs) =
     (if getProp (JObj kvs) ''type'' = JStr ''Set'' \<and> isArray (getProp (JObj kvs) ''value'')
      then JSet (newSet (arrayElems (getProp (JObj kvs) ''value'')))
      else if getProp (JObj kvs) ''type'' = JStr ''Map'' \<and> truthy (getProp (JObj kvs) ''value'')
      then JMap (newMap (objectEntries (getProp (JObj kvs) ''value'')))
      else JObj (assignAll [] (ownEntries (map (\<lambda>(k, v). (k, deserializeState v)) kvs))))"
| "deserializeState (JArr xs) = JArr (map deserializeState xs)"
| "deserializeState (JSet xs) = JObj []"
| "deserializeState (JMap kvs) = JObj []"
| "deserializeState v = v"

text \<open>
  Modelled from the spec: the serializer of the persistence adapter, which is not part of
  the sources at hand. Section 4.6: ``Sets serialize to \<open>{type:"Set", value:[\<dots>]}\<close>. Maps
  serialize to \<open>{type:"Map", value:{\<dots>}}\<close>. Arrays and plain objects recurse. Primitives
  pass through.''
\<close>

fun serializeState :: "jsval \<Rightarrow> jsval" where
  "serializeState (JSet xs) = JObj [(''type'', JStr ''Set''), (''value'', JArr xs)]"
| "serializeState (JMap kvs) = JObj [(''type'', JStr ''Map''), (''value'', JObj kvs)]"
| "serializeState (JArr xs) = JArr (map serializeState xs)"
| "serializeState (JObj kvs) = JObj (map (\<lambda>(k, v). (k, serializeState v)) kvs)"
| "serializeState v = v"

text \<open>
  A plain object has the shape of an envelope when the deserializer would read it as one.
\<close>

definition isEnvelope :: "jsval \<Rightarrow> bool" where
  "isEnvelope d =
     ((getProp d ''type'' = JStr ''Set'' \<and> isArray (getProp d ''value'')) \<or>
      (getProp d ''type'' = JStr ''Map'' \<and> truthy (getProp d ''value'')))"

text \<open>
  The snapshots on which the round trip is the identity. In every position that the two
  traversals reach (through arrays and plain objects), no plain object has the shape of an
  envelope or an own key \<open>__proto__\<close>. The other conditions hold of every value of the
  program: a \<open>Set\<close> instance holds no primitive twice, a \<open>Map\<close> instance and an
  object no key twice, and the properties of an object are listed in the order of their
  enumeration; for a \<open>Map\<close> this is asked of its entries too, since they come back in
  the order in which the serialized object enumerates them.
\<close>

fun restorable :: "jsval \<Rightarrow> bool" where
  "restorable (JSet xs) = distinct (filter isPrimitive xs)"
| "restorable (JMap kvs) = (distinct (map fst kvs) \<and> ownEntries kvs = kvs)"
| "restorable (JArr xs) = (\<forall>x \<in> set xs. restorable x)"
| "restorable (JObj kvs) =
     (\<not> isEnvelope (JObj kvs) \<and> distinct (map fst kvs) \<and> ''__proto__'' \<notin> set (map fst kvs) \<and>
      ownEntries kvs = kvs \<and> (\<forall>kv \<in> set kvs. restorable (snd kv)))"
| "restorable v = True"

section \<open>Errors\<close>

text \<open>
  A thrown JavaScript error is a value: \<open>new Error(message)\<close> or the engine's own
  \<open>new BreakpointError(message)\<close>, which the attempt loop recognises with
  \<open>instanceof\<close>.
\<close>

datatype error = Error string | BreakpointError string

section \<open>Agent graph: the edge pattern handlers\<close>

text \<open>
  Modelled from the spec: the \<open>AgentGraph\<close> class and the types of \<open>./types\<close> are
  imported by the handlers but are not part of the sources at hand. The handlers read two
  fields of a node (section 3 lists the others), and hand the graph's node states
  (``sequence of \<open>{name, input, output, reasoning?, status}\<close>'') to the user functions of
  an edge.
\<close>

record node =
  name :: string
  enableReasoning :: bool

record nodeState =
  ns_name :: string
  ns_input :: string
  ns_output :: string
  ns_reasoning :: "string option"
  ns_status :: string

text \<open>
  The mutable state a handler touches: \<open>graph.executionState.results\<close> and
  \<open>.completed\<close>, the node states, the \<open>responses\<close> array handed to \<open>handle\<close>
  (it is mutated in place), and the number of identifiers \<open>uuidv4()\<close> has produced.
\<close>

record gstate =
  results :: "string \<rightharpoonup> string"
  completed :: "string set"
  nodeStates :: "nodeState list"
  responses :: "(string \<times> string) list"
  uuidCount :: nat

text \<open>
  What a \<open>condition\<close> function hands back at once: a value, or (when the function is
  \<open>async\<close>) a promise of one. The handler does not await it.
\<close>

datatype returned = Value jsval | Promise jsval

fun returnedTruthy :: "returned \<Rightarrow> bool" where
  "returnedTruthy (Value v) = truthy v"
| "returnedTruthy (Promise v) = True"

typedecl stopCondition

text \<open>
  The pattern-specific configuration of an edge, with the fields the loop and the
  condition handler read. A user function may throw. \<open>inputTransform\<close> and
  \<open>outputTransform\<close> stand for the configured function followed by the \<open>String(\<dots>)\<close>
  conversion the loop handler applies to its result.
\<close>

record edge_config =
  maxIterations :: "int option"
  stopCondition :: "stopCondition option"
  inputTransform :: "(string \<Rightarrow> nodeState list \<Rightarrow> error + string) option"
  outputTransform :: "(string list \<Rightarrow> nodeState list \<Rightarrow> error + string) option"
  condition :: "(string \<Rightarrow> nodeState list \<Rightarrow> error + returned) option"

record edge =
  edge_from :: string
  edge_to :: string
  config :: "edge_config option"
  fallback :: "string option"

text \<open>
  The methods of the graph that the handlers call, as parameters: the node registry, the
  two LLM calls, the stop test, the execution of a node (with all it triggers), the routing
  of a failed edge to its fallback node, and the identifier supply.
\<close>

record graph =
  getNode :: "string \<Rightarrow> node option"
  shouldStop :: "stopCondition option \<Rightarrow> string \<Rightarrow> gstate \<Rightarrow> (error + bool) \<times> gstate"
  processReasoningStep :: "node \<Rightarrow> string \<Rightarrow> gstate \<Rightarrow> (error + string) \<times> gstate"
  processAgentMessage ::
    "string \<Rightarrow> string \<Rightarrow> node \<Rightarrow> string \<Rightarrow> gstate \<Rightarrow> (error + string) \<times> gstate"
  executeNode :: "string \<Rightarrow> string \<Rightarrow> gstate \<Rightarrow> (error + unit) \<times> gstate"
  routeToFallback :: "string \<Rightarrow> error \<Rightarrow> gstate \<Rightarrow> (error + unit) \<times> gstate"
  uuidv4 :: "nat \<Rightarrow> string"

text \<open>
  Every call a handler makes into the graph is recorded, in order, in a log that the
  graph's own methods cannot touch: a computation runs on the log and the state.
\<close>

datatype gcall =
    StopTested string
  | ReasoningRun string string
  | ReasoningEmitted string string string
  | AgentMessageRun string string string
  | NodeExecuted string string
  | FallbackRouted string

type_synonym 'a gcomp = "gcall list \<times> gstate \<Rightarrow> (error + 'a) \<times> gcall list \<times> gstate"

text \<open>The calls a computation adds to the log when it is run from a state.\<close>

definition newCalls :: "'a gcomp \<Rightarrow> gcall list \<times> gstate \<Rightarrow> gcall list" where
  "newCalls m st = drop (length (fst st)) (fst (snd (m st)))"

definition returnG :: "'a \<Rightarrow> 'a gcomp" where
  "returnG v = (\<lambda>st. (Inr v, st))"

definition throwG :: "error \<Rightarrow> 'a gcomp" where
  "throwG e = (\<lambda>st. (Inl e, st))"

definition bindG :: "'a gcomp \<Rightarrow> ('a \<Rightarrow> 'b gcomp) \<Rightarrow> 'b gcomp" where
  "bindG m f = (\<lambda>st. case m st of (Inl e, st') \<Rightarrow> (Inl e, st') | (Inr v, st') \<Rightarrow> f v st')"

definition callG :: "gcall \<Rightarrow> (gstate \<Rightarrow> (error + 'a) \<times> gstate) \<Rightarrow> 'a gcomp" where
  "callG c m = (\<lambda>(log, s). case m s of (r, s') \<Rightarrow> (r, log @ [c], s'))"

definition modifyG :: "(gstate \<Rightarrow> gstate) \<Rightarrow> unit gcomp" where
  "modifyG f = (\<lambda>(log, s). (Inr (), log, f s))"

definition freshUuid :: "graph \<Rightarrow> string gcomp" where
  "freshUuid G = (\<lambda>(log, s). (Inr (uuidv4 G (uuidCount s)), log, s\<lparr>uuidCount := Suc (uuidCount s)\<rparr>))"

text \<open>
  Modelled from the spec: \<open>withFallback(edge, fn)\<close> ``runs \<open>fn\<close>, on error routes to the
  edge's configured fallback node if any, else rethrows''. The closure \<open>fn\<close> of a handler
  assigns to a variable of the handler; here it returns the new value, and \<open>dflt\<close> is the
  value the variable keeps when \<open>fn\<close> threw before the assignment.
\<close>

definition withFallback :: "graph \<Rightarrow> edge \<Rightarrow> 'a \<Rightarrow> 'a gcomp \<Rightarrow> 'a gcomp" where
  "withFallback G e dflt fn =
     (\<lambda>st. case fn st of
        (Inr v, st') \<Rightarrow> (Inr v, st')
      | (Inl err, st') \<Rightarrow>
          (case fallback e of
             None \<Rightarrow> (Inl err, st')
           | Some fb \<Rightarrow>
               bindG (callG (FallbackRouted fb) (routeToFallback G fb err)) (\<lambda>_. returnG dflt) st'))"

subsection \<open>\<open>ConditionEdgeHandler.handle\<close>\<close>

text \<open>
  \<open>edge.config?.condition?.({response, nodes})\<close>: \<open>undefined\<close> when the edge has no
  config or the config no condition, else what the function returns at once.
\<close>

definition callCondition :: "edge \<Rightarrow> string \<Rightarrow> nodeState list \<Rightarrow> error + returned" where
  "callCondition e response nodes =
     (case config e of
        None \<Rightarrow> Inr (Value JUndef)
      | Some c \<Rightarrow>
          (case condition c of
             None \<Rightarrow> Inr (Value JUndef)
           | Some f \<Rightarrow> f response nodes))"

fun ConditionEdgeHandler_handle :: "graph \<Rightarrow> edge list \<Rightarrow> string \<Rightarrow> string gcomp" where
  "ConditionEdgeHandler_handle G [] sourceResponse = returnG sourceResponse"
| "ConditionEdgeHandler_handle G (e # es) sourceResponse =
     (\<lambda>st. case callCondition e sourceResponse (nodeStates (snd st)) of
        Inl err \<Rightarrow> (Inl err, st)
      | Inr r \<Rightarrow>
          if returnedTruthy r
          then bindG
                 (withFallback G e ()
                    (callG (NodeExecuted (edge_to e) sourceResponse)
                       (executeNode G (edge_to e) sourceResponse)))
                 (\<lambda>_. ConditionEdgeHandler_handle G es sourceResponse) st
          else ConditionEdgeHandler_handle G es sourceResponse st)"

subsection \<open>\<open>LoopEdgeHandler.handle\<close>\<close>

text \<open>\<open>Array.prototype.join\<close> on an array of strings.\<close>

fun join :: "string \<Rightarrow> string list \<Rightarrow> string" where
  "join sep [] = []"
| "join sep [x] = x"
| "join sep (x # y # ys) = x @ sep @ join sep (y # ys)"

definition blankLine :: string where
  "blankLine = [CHR 0x0A, CHR 0x0A]"

text \<open>
  One node run of an iteration: a fresh identifier, the optional reasoning step with its
  event, the agent message on the reasoning and the input, and the push onto
  \<open>responses\<close>.
\<close>

definition runLoopNode :: "graph \<Rightarrow> node \<Rightarrow> string \<Rightarrow> string gcomp" where
  "runLoopNode G nd input =
     bindG (freshUuid G) (\<lambda>nodeId.
     bindG (if enableReasoning nd
            then bindG (callG (ReasoningRun (name nd) input) (processReasoningStep G nd input))
                   (\<lambda>r. bindG (callG (ReasoningEmitted nodeId (name nd) r) (\<lambda>s. (Inr (), s)))
                   (\<lambda>_. returnG r))
            else returnG []) (\<lambda>reasoningResult.
     bindG (let prompt = (if reasoningResult \<noteq> [] then reasoningResult @ blankLine @ input else input)
            in callG (AgentMessageRun nodeId (name nd) prompt)
                 (processAgentMessage G nodeId (name nd) nd prompt)) (\<lambda>response.
     bindG (modifyG (\<lambda>s. s\<lparr>responses := responses s @ [(nodeId, response)]\<rparr>)) (\<lambda>_.
     returnG response))))"

text \<open>
  The \<open>while (iterations < maxIterations)\<close> loop, by the number of iterations that are
  left. It returns \<open>loopResponses\<close>.
\<close>

fun loopIterations ::
  "graph \<Rightarrow> edge_config \<Rightarrow> node \<Rightarrow> node \<Rightarrow> nat \<Rightarrow> string \<Rightarrow> string list \<Rightarrow> string list gcomp" where
  "loopIterations G cfg toNode fromNode 0 currentResponse loopResponses = returnG loopResponses"
| "loopIterations G cfg toNode fromNode (Suc k) currentResponse loopResponses =
     bindG (callG (StopTested currentResponse) (shouldStop G (stopCondition cfg) currentResponse))
       (\<lambda>stop.
     if stop then returnG loopResponses
     else
     bindG (case inputTransform cfg of
              Some f \<Rightarrow> (\<lambda>st. (f currentResponse (nodeStates (snd st)), st))
            | None \<Rightarrow> returnG currentResponse) (\<lambda>input.
     bindG (runLoopNode G toNode input) (\<lambda>toResponse.
     bindG (runLoopNode G fromNode toResponse) (\<lambda>fromResponse.
     loopIterations G cfg toNode fromNode k fromResponse
       (loopResponses @ [toResponse, fromResponse])))))"

definition emptyConfig :: edge_config where
  "emptyConfig =
     \<lparr>maxIterations = None, stopCondition = None, inputTransform = None,
      outputTransform = None, condition = None\<rparr>"

text \<open>
  The closure handed to \<open>withFallback\<close> for one edge. It returns the value of
  \<open>finalResponse\<close> after it: unchanged when a node is missing.
\<close>

definition loopEdge :: "graph \<Rightarrow> string \<Rightarrow> edge \<Rightarrow> string \<Rightarrow> string gcomp" where
  "loopEdge G sourceResponse e finalResponse =
     (let cfg = (case config e of None \<Rightarrow> emptyConfig | Some c \<Rightarrow> c);
          maxIt = (case maxIterations cfg of None \<Rightarrow> 3 | Some n \<Rightarrow> n)
      in case getNode G (edge_to e) of
           None \<Rightarrow> returnG finalResponse
         | Some toNode \<Rightarrow>
             (case getNode G (edge_from e) of
                None \<Rightarrow> returnG finalResponse
              | Some fromNode \<Rightarrow>
                  bindG (loopIterations G cfg toNode fromNode (nat maxIt)
                           sourceResponse [sourceResponse]) (\<lambda>loopResponses.
                  bindG (case outputTransform cfg of
                           Some f \<Rightarrow> (\<lambda>st. (f loopResponses (nodeStates (snd st)), st))
                         | None \<Rightarrow> returnG (join blankLine loopResponses)) (\<lambda>final.
                  bindG (modifyG (\<lambda>s. s\<lparr>results := (results s)(edge_from e \<mapsto> final),
                                          completed := insert (edge_from e)
                                            (insert (edge_to e) (completed s))\<rparr>)) (\<lambda>_.
                  returnG final)))))"

fun loopEdges :: "graph \<Rightarrow> string \<Rightarrow> edge list \<Rightarrow> string \<Rightarrow> string gcomp" where
  "loopEdges G sourceResponse [] finalResponse = returnG finalResponse"
| "loopEdges G sourceResponse (e # es) finalResponse =
     bindG (withFallback G e finalResponse (loopEdge G sourceResponse e finalResponse))
       (loopEdges G sourceResponse es)"

definition LoopEdgeHandler_handle :: "graph \<Rightarrow> edge list \<Rightarrow> string \<Rightarrow> string gcomp" where
  "LoopEdgeHandler_handle G edges sourceResponse = loopEdges G sourceResponse edges sourceResponse"

section \<open>Workflow engine\<close>

subsection \<open>Tasks and the execution context\<close>

text \<open>
  A routing destination (\<open>string | string[] | ParallelTaskRoute[]\<close>; \<open>undefined\<close> is
  \<open>None\<close> of the option type). A \<open>ParallelTaskRoute\<close> is \<open>{task, data?}\<close>, with
  \<open>JUndef\<close> for absent data.
\<close>

datatype destination =
    Single string
  | Names "string list"
  | Routes "(string \<times> jsval) list"

text \<open>
  What \<open>execute\<close> resolves to: \<open>ResultNext r n\<close> is an object that has both a
  \<open>result\<close> and a \<open>next\<close> key (\<open>n = None\<close> when \<open>next\<close> is \<open>undefined\<close>),
  \<open>Bare v\<close> is every other value.
\<close>

datatype task_return = Bare jsval | ResultNext jsval "destination option"

text \<open>The fields of \<open>ExecutionContext\<close>, with those of its \<open>WorkflowState\<close>.\<close>

record executionContext =
  completedTasks :: "string set"
  runningTasks :: "string set"
  taskData :: "string \<rightharpoonup> jsval"
  breakpointId :: "string option"
  breakpointData :: "jsval option"
  breakpointTask :: "string option"
  aborted :: bool
  gracefulShutdown :: bool
  taskExecutionCounts :: "string \<rightharpoonup> nat"

text \<open>
  What the engine does to its collaborators, in order: the \<open>taskExecution\<close> events it
  emits, the snapshots it hands to \<open>persistence.saveWorkflow\<close>, and its calls of a
  task's \<open>execute\<close> (with the attempt number and the data) and \<open>onError\<close>.
\<close>

datatype obs =
    TaskExecution string nat
  | Saved executionContext
  | ExecuteCalled string nat jsval
  | OnErrorCalled string error

record world = executionContext +
  trace :: "obs list"
  uuids :: nat

text \<open>
  A task's \<open>execute\<close> is a callback. One invocation is described by the calls it makes
  on its parameter bundle (\<open>abort\<close>, \<open>redirectTo\<close>, \<open>interrupt\<close>), in order; by how
  many of these it makes at once, within the call of \<open>execute\<close> and before its first
  \<open>await\<close> (the others it makes later, when the engine already waits for its promise); by
  how its promise settles; and by whether it was still pending when the timer of
  \<open>executeTaskWithTimeout\<close> fired (read only when the task has a timeout). A call that
  throws ends the invocation, so the calls after it and \<open>settles\<close> are not reached.
  The invocation may depend on the data, on the execution context, and (as a closure may
  keep state) on the number of the attempt. Direct calls of a task on
  \<open>executionContext\<close>, its events and its context writes are outside the model, as are
  the wall-clock timing records and the console output of the engine; the router and
  \<open>onError\<close> are taken to make no call on their parameter bundle.
\<close>

datatype call = Abort bool | RedirectTo destination | Interrupt jsval

datatype settled = Returns task_return | Throws error

record behaviour =
  calls :: "call list"
  eager :: nat
  settles :: settled
  overran :: bool

record errorResult =
  retry :: bool
  result :: jsval
  "next" :: "destination option"

record task_config =
  execute :: "nat \<Rightarrow> jsval \<Rightarrow> executionContext \<Rightarrow> behaviour"
  route :: "jsval \<Rightarrow> executionContext \<Rightarrow> destination option"
  dependencies :: "string list option"
  retryCount :: "int option"
  timeoutMs :: "nat option"
  onError :: "(error \<Rightarrow> jsval \<Rightarrow> executionContext \<Rightarrow> error + errorResult) option"

record engine =
  tasks :: "string \<rightharpoonup> task_config"
  persistence :: bool
  engine_uuidv4 :: "nat \<Rightarrow> string"

subsection \<open>\<open>ExecutionContext\<close>\<close>

definition getTaskExecutionCount :: "string \<Rightarrow> world \<Rightarrow> nat" where
  "getTaskExecutionCount taskName w =
     (case taskExecutionCounts w taskName of None \<Rightarrow> 0 | Some n \<Rightarrow> n)"

definition emitTaskExecutionEvent :: "string \<Rightarrow> nat \<Rightarrow> world \<Rightarrow> world" where
  "emitTaskExecutionEvent taskName count w = w\<lparr>trace := trace w @ [TaskExecution taskName count]\<rparr>"

definition markTaskComplete :: "string \<Rightarrow> jsval \<Rightarrow> world \<Rightarrow> world" where
  "markTaskComplete taskName d w =
     (if aborted w \<and> \<not> gracefulShutdown w then w
      else
        let newCount = getTaskExecutionCount taskName w + 1;
            w1 = w\<lparr>taskExecutionCounts := (taskExecutionCounts w)(taskName \<mapsto> newCount)\<rparr>;
            w2 = emitTaskExecutionEvent taskName newCount w1
        in w2\<lparr>completedTasks := insert taskName (completedTasks w2),
               runningTasks := runningTasks w2 - {taskName},
               taskData := (taskData w2)(taskName \<mapsto> d)\<rparr>)"

definition resetTaskCompletion :: "string \<Rightarrow> world \<Rightarrow> world" where
  "resetTaskCompletion taskName w = w\<lparr>completedTasks := completedTasks w - {taskName}\<rparr>"

definition abortWorkflow :: "bool \<Rightarrow> world \<Rightarrow> world" where
  "abortWorkflow graceful w = w\<lparr>aborted := True, gracefulShutdown := graceful\<rparr>"

subsection \<open>\<open>WorkflowEngine\<close>: persistence, breakpoints, abort\<close>

definition saveWorkflow :: "engine \<Rightarrow> world \<Rightarrow> world" where
  "saveWorkflow E w =
     (if persistence E then w\<lparr>trace := trace w @ [Saved (executionContext.truncate w)]\<rparr> else w)"

definition notFound :: "string \<Rightarrow> string" where
  "notFound taskName = ''Task \"'' @ taskName @ ''\" not found.''"

definition createBreakpoint :: "engine \<Rightarrow> string \<Rightarrow> jsval \<Rightarrow> world \<Rightarrow> error + world" where
  "createBreakpoint E task d w =
     (if task \<in> dom (tasks E)
      then Inr (saveWorkflow E
                  (w\<lparr>breakpointId := Some (engine_uuidv4 E (uuids w)),
                     breakpointData := Some d,
                     breakpointTask := Some task,
                     uuids := Suc (uuids w)\<rparr>))
      else Inl (Error (notFound task)))"

definition abort :: "engine \<Rightarrow> bool \<Rightarrow> world \<Rightarrow> world" where
  "abort E graceful w = saveWorkflow E (abortWorkflow graceful w)"

definition addTask :: "string \<Rightarrow> task_config \<Rightarrow> engine \<Rightarrow> engine" where
  "addTask taskName c E = E\<lparr>tasks := (tasks E)(taskName \<mapsto> c)\<rparr>"

text \<open>
  The constructors: an engine without tasks (with or without a persistence layer), and
  the execution context of a workflow that has not started.
\<close>

definition newEngine :: "bool \<Rightarrow> engine" where
  "newEngine p =
     \<lparr>tasks = Map.empty, persistence = p, engine_uuidv4 = (\<lambda>n. ''uuid-'' @ showNat n)\<rparr>"

definition newWorld :: world where
  "newWorld =
     \<lparr>completedTasks = {}, runningTasks = {}, taskData = Map.empty, breakpointId = None,
      breakpointData = None, breakpointTask = None, aborted = False, gracefulShutdown = False,
      taskExecutionCounts = Map.empty, trace = [], uuids = 0\<rparr>"

subsection \<open>One invocation of \<open>execute\<close>\<close>

text \<open>
  Without a timeout, \<open>execute\<close> gets the bundle built in \<open>executeTask\<close>: \<open>abort\<close> is
  \<open>abortWorkflow\<close> of the context, \<open>redirectTo\<close> assigns \<open>taskRedirect\<close>, and
  \<open>interrupt\<close> marks the task complete, creates the breakpoint and throws.
\<close>

fun directCalls ::
  "engine \<Rightarrow> string \<Rightarrow> call list \<Rightarrow> destination option \<Rightarrow> world
     \<Rightarrow> error option \<times> destination option \<times> world" where
  "directCalls E taskName [] taskRedirect w = (None, taskRedirect, w)"
| "directCalls E taskName (Abort graceful # cs) taskRedirect w =
     directCalls E taskName cs taskRedirect (abortWorkflow graceful w)"
| "directCalls E taskName (RedirectTo nextTask # cs) taskRedirect w =
     directCalls E taskName cs (Some nextTask) w"
| "directCalls E taskName (Interrupt d # cs) taskRedirect w =
     (case createBreakpoint E taskName d (markTaskComplete taskName d w) of
        Inl e \<Rightarrow> (Some e, taskRedirect, markTaskComplete taskName d w)
      | Inr w' \<Rightarrow> (Some (BreakpointError ''Breakpoint created''), taskRedirect, w'))"

text \<open>
  With a timeout, \<open>execute\<close> gets the bundle built in \<open>executeTaskWithTimeout\<close>, in
  which only \<open>redirectTo\<close> is replaced by the one of \<open>executeTask\<close>: its
  \<open>interrupt\<close> writes a line to the console and returns.
\<close>

fun timeoutCalls ::
  "call list \<Rightarrow> destination option \<Rightarrow> world \<Rightarrow> destination option \<times> world" where
  "timeoutCalls [] taskRedirect w = (taskRedirect, w)"
| "timeoutCalls (Abort graceful # cs) taskRedirect w =
     timeoutCalls cs taskRedirect (abortWorkflow graceful w)"
| "timeoutCalls (RedirectTo nextTask # cs) taskRedirect w =
     timeoutCalls cs (Some nextTask) w"
| "timeoutCalls (Interrupt d # cs) taskRedirect w = timeoutCalls cs taskRedirect w"

text \<open>
  The error of the timer of \<open>executeTaskWithTimeout\<close> (its message without the leading
  pictograph). The timer wins the race exactly when the invocation overran; the calls of
  the invocation are then those it made before the timer fired.
\<close>

definition timeoutError :: error where
  "timeoutError = Error ''Task timeout exceeded''"

definition hasTimeout :: "task_config \<Rightarrow> bool" where
  "hasTimeout c = (case timeoutMs c of None \<Rightarrow> False | Some ms \<Rightarrow> ms \<noteq> 0)"

text \<open>
  An invocation has two parts. The call of \<open>execute\<close> runs the callback up to its first
  \<open>await\<close> and hands the engine a promise; \<open>executeTask\<close> then waits for it. What is
  kept between the two: the invocation, the value of \<open>taskRedirect\<close> so far, and the
  error of an \<open>interrupt\<close> that has already thrown inside the callback.
\<close>

record pending =
  invoked :: behaviour
  redirected :: "destination option"
  thrown :: "error option"

definition beginExecute ::
  "engine \<Rightarrow> string \<Rightarrow> task_config \<Rightarrow> nat \<Rightarrow> jsval \<Rightarrow> destination option \<Rightarrow> world
     \<Rightarrow> pending \<times> world" where
  "beginExecute E taskName c attempt d taskRedirect w =
     (let b = execute c attempt d (executionContext.truncate w);
          w0 = w\<lparr>trace := trace w @ [ExecuteCalled taskName attempt d]\<rparr>
      in if hasTimeout c
         then (case timeoutCalls (take (eager b) (calls b)) taskRedirect w0 of
                 (rd, w') \<Rightarrow> (\<lparr>invoked = b, redirected = rd, thrown = None\<rparr>, w'))
         else (case directCalls E taskName (take (eager b) (calls b)) taskRedirect w0 of
                 (err, rd, w') \<Rightarrow> (\<lparr>invoked = b, redirected = rd, thrown = err\<rparr>, w')))"

definition settleExecute ::
  "engine \<Rightarrow> string \<Rightarrow> task_config \<Rightarrow> pending \<Rightarrow> world
     \<Rightarrow> settled \<times> destination option \<times> world" where
  "settleExecute E taskName c p w =
     (let b = invoked p;
          later = drop (eager b) (calls b)
      in if hasTimeout c
         then (case timeoutCalls later (redirected p) w of
                 (rd, w') \<Rightarrow> (if overran b then Throws timeoutError else settles b, rd, w'))
         else (case thrown p of
                 Some e \<Rightarrow> (Throws e, redirected p, w)
               | None \<Rightarrow>
                   (case directCalls E taskName later (redirected p) w of
                      (Some e, rd, w') \<Rightarrow> (Throws e, rd, w')
                    | (None, rd, w') \<Rightarrow> (settles b, rd, w'))))"

text \<open>An invocation that nothing else interleaves with: \<open>await config.execute(\<dots>)\<close>.\<close>

definition invokeExecute ::
  "engine \<Rightarrow> string \<Rightarrow> task_config \<Rightarrow> nat \<Rightarrow> jsval \<Rightarrow> destination option \<Rightarrow> world
     \<Rightarrow> settled \<times> destination option \<times> world" where
  "invokeExecute E taskName c attempt d taskRedirect w =
     (case beginExecute E taskName c attempt d taskRedirect w of
        (p, w') \<Rightarrow> settleExecute E taskName c p w')"

subsection \<open>\<open>executeTask\<close>\<close>

definition retryLimit :: "task_config \<Rightarrow> int" where
  "retryLimit c = (case retryCount c of None \<Rightarrow> 0 | Some n \<Rightarrow> n)"

definition dependenciesComplete :: "task_config \<Rightarrow> world \<Rightarrow> bool" where
  "dependenciesComplete c w =
     (case dependencies c of None \<Rightarrow> True | Some deps \<Rightarrow> \<forall>dep \<in> set deps. dep \<in> completedTasks w)"

fun resultOf :: "task_return \<Rightarrow> jsval" where
  "resultOf (Bare v) = v"
| "resultOf (ResultNext r n) = r"

fun directNextOf :: "task_return \<Rightarrow> destination option" where
  "directNextOf (Bare v) = None"
| "directNextOf (ResultNext r n) = n"

text \<open>
  ``Check redirection sources in priority order'': the redirect callback, the \<open>next\<close> of
  the return value, the router. The router is a pure function here, so that its value can
  be handed over whether or not it is needed.
\<close>

definition resolveNext ::
  "destination option \<Rightarrow> destination option \<Rightarrow> destination option \<Rightarrow> destination option" where
  "resolveNext taskRedirect directNextTasks routed =
     (case taskRedirect of
        Some r \<Rightarrow> Some r
      | None \<Rightarrow> (case directNextTasks of Some n \<Rightarrow> Some n | None \<Rightarrow> routed))"

text \<open>
  The \<open>executeTask\<close> calls a destination leads to, each with its data: none for
  \<open>undefined\<close> and for the empty string (both falsy), one for a task name, one per
  element for an array, where a route without data of its own gets the result. The
  success path and the \<open>onError\<close> path of the source dispatch in this same way; only
  the success path tests for \<open>"end"\<close> before it does.
\<close>

fun targets :: "destination option \<Rightarrow> jsval \<Rightarrow> (string \<times> jsval) list" where
  "targets None r = []"
| "targets (Some (Single s)) r = (if s = [] then [] else [(s, r)])"
| "targets (Some (Names ns)) r = map (\<lambda>n. (n, r)) ns"
| "targets (Some (Routes rs)) r = map (\<lambda>(t, d). (t, if d \<noteq> JUndef then d else r)) rs"

text \<open>
  The part of \<open>executeTask\<close> that runs within the call, before the \<open>async\<close> function
  first waits: the guards, the entry into \<open>runningTasks\<close>, the test of the loop for the
  first attempt and the call of \<open>execute\<close>. The call has then either settled without an
  attempt (skipped, or rejected for a task that is not registered), or an attempt is
  under way.
\<close>

datatype started = Settled "error + jsval" | Started task_config pending

definition startTask :: "engine \<Rightarrow> string \<Rightarrow> jsval \<Rightarrow> world \<Rightarrow> started \<times> world" where
  "startTask E taskName d w =
     (if aborted w \<and> \<not> gracefulShutdown w then (Settled (Inr JUndef), w)
      else
        case tasks E taskName of
          None \<Rightarrow> (Settled (Inl (Error (notFound taskName))), w)
        | Some c \<Rightarrow>
            if \<not> dependenciesComplete c w then (Settled (Inr JUndef), w)
            else
              let w1 = (if taskName \<in> completedTasks w then resetTaskCompletion taskName w else w)
              in if taskName \<in> runningTasks w1 then (Settled (Inr JUndef), w1)
                 else
                   let w2 = w1\<lparr>runningTasks := insert taskName (runningTasks w1)\<rparr>
                   in if \<not> 0 \<le> retryLimit c then (Settled (Inr JUndef), w2)
                      else case beginExecute E taskName c 0 d None w2 of
                             (p, w3) \<Rightarrow> (Started c p, w3))"

text \<open>
  \<open>Promise.all\<close> over the \<open>executeTask\<close> calls of a fan-out. \<open>map\<close> makes the
  calls one after the other, so every sibling is started, in the order of the array,
  before any of them goes on. How the siblings interleave after that depends on when the
  promises of their attempts settle, which the source does not fix. The model takes the
  schedule in which they settle in the order of the array, each sibling running to its end
  (with all it dispatches) before the next goes on, and in which the caller is resumed
  after the last of them. The caller then sees the rejection that came first: one of the
  start, else the first of a sibling that finished. \<open>resume\<close> is what a started call
  does once the promise of its attempt has settled.
\<close>

fun startAll ::
  "engine \<Rightarrow> (string \<times> jsval) list \<Rightarrow> world \<Rightarrow> (string \<times> jsval \<times> started) list \<times> world" where
  "startAll E [] w = ([], w)"
| "startAll E ((taskName, d) # rest) w =
     (case startTask E taskName d w of
        (s, w1) \<Rightarrow> (case startAll E rest w1 of (ss, w2) \<Rightarrow> ((taskName, d, s) # ss, w2)))"

fun startErrors :: "(string \<times> jsval \<times> started) list \<Rightarrow> error list" where
  "startErrors [] = []"
| "startErrors ((taskName, d, Settled (Inl e)) # ss) = e # startErrors ss"
| "startErrors (s # ss) = startErrors ss"

fun finishAll ::
  "(string \<Rightarrow> task_config \<Rightarrow> jsval \<Rightarrow> pending \<Rightarrow> world \<Rightarrow> ((error + jsval) \<times> world) option)
     \<Rightarrow> (string \<times> jsval \<times> started) list \<Rightarrow> world \<Rightarrow> (error list \<times> world) option" where
  "finishAll resume [] w = Some ([], w)"
| "finishAll resume ((taskName, d, Settled r) # ss) w = finishAll resume ss w"
| "finishAll resume ((taskName, d, Started c p) # ss) w =
     (case resume taskName c d p w of
        None \<Rightarrow> None
      | Some (r, w1) \<Rightarrow>
          (case finishAll resume ss w1 of
             None \<Rightarrow> None
           | Some (es, w2) \<Rightarrow> Some ((case r of Inl e \<Rightarrow> [e] | Inr v \<Rightarrow> []) @ es, w2)))"

definition executeAll ::
  "(string \<Rightarrow> task_config \<Rightarrow> jsval \<Rightarrow> pending \<Rightarrow> world \<Rightarrow> ((error + jsval) \<times> world) option)
     \<Rightarrow> engine \<Rightarrow> (string \<times> jsval) list \<Rightarrow> world \<Rightarrow> (error option \<times> world) option" where
  "executeAll resume E ts w =
     (case startAll E ts w of
        (ss, w1) \<Rightarrow>
          (case finishAll resume ss w1 of
             None \<Rightarrow> None
           | Some (es, w2) \<Rightarrow>
               Some (case startErrors ss @ es of [] \<Rightarrow> None | e # rest \<Rightarrow> Some e, w2)))"

text \<open>
  The bookkeeping of a successful attempt: \<open>markTaskComplete\<close>, the awaited save, and
  the second \<open>emitTaskExecutionEvent\<close> with the count read back from the context.
\<close>

definition completeAttempt :: "engine \<Rightarrow> string \<Rightarrow> jsval \<Rightarrow> world \<Rightarrow> world" where
  "completeAttempt E taskName r w1 =
     (let w2 = markTaskComplete taskName r w1;
          w3 = saveWorkflow E w2
      in emitTaskExecutionEvent taskName (getTaskExecutionCount taskName w3) w3)"

text \<open>
  How an iteration of the attempt loop gets the outcome of its attempt: the first
  iteration of a started call waits for the invocation that is under way; every other
  iteration tests the loop condition (\<open>None\<close>: the loop is left) and invokes
  \<open>execute\<close>.
\<close>

datatype attempt_source = Fresh "destination option" | Begun pending

definition attemptOutcome ::
  "engine \<Rightarrow> string \<Rightarrow> task_config \<Rightarrow> jsval \<Rightarrow> nat \<Rightarrow> attempt_source \<Rightarrow> world
     \<Rightarrow> (settled \<times> destination option \<times> world) option" where
  "attemptOutcome E taskName c d attempt src w =
     (case src of
        Begun p \<Rightarrow> Some (settleExecute E taskName c p w)
      | Fresh taskRedirect \<Rightarrow>
          if \<not> int attempt \<le> retryLimit c then None
          else Some (invokeExecute E taskName c attempt d taskRedirect w))"

text \<open>
  A workflow may route for ever, so the functions take fuel: every nested call of
  \<open>executeTask\<close>, every attempt and every \<open>catch\<close> uses one unit, and \<open>None\<close> is
  ``no answer within the fuel''. \<open>attemptLoop\<close> is the \<open>while\<close> loop from its head
  (an exit through the loop condition returns \<open>undefined\<close>), \<open>catchBlock\<close> is the
  \<open>catch\<close> clause of its body, entered with the attempt counter before its increment. An
  error thrown by a successor is caught by the same clause, since the dispatch is inside
  the \<open>try\<close>.
\<close>

fun attemptLoop ::
      "nat \<Rightarrow> engine \<Rightarrow> string \<Rightarrow> task_config \<Rightarrow> jsval \<Rightarrow> nat \<Rightarrow> attempt_source \<Rightarrow> world
         \<Rightarrow> ((error + jsval) \<times> world) option"
  and catchBlock ::
      "nat \<Rightarrow> engine \<Rightarrow> string \<Rightarrow> task_config \<Rightarrow> jsval \<Rightarrow> nat \<Rightarrow> destination option \<Rightarrow> error
         \<Rightarrow> world \<Rightarrow> ((error + jsval) \<times> world) option"
where
  "attemptLoop 0 E taskName c d attempt src w = None"
| "attemptLoop (Suc fuel) E taskName c d attempt src w =
     (case attemptOutcome E taskName c d attempt src w of
        None \<Rightarrow> Some (Inr JUndef, w)
      | Some (Throws e, rd, w1) \<Rightarrow> catchBlock fuel E taskName c d attempt rd e w1
      | Some (Returns taskResult, rd, w1) \<Rightarrow>
          (let w4 = completeAttempt E taskName (resultOf taskResult) w1
           in if aborted w4 \<and> \<not> gracefulShutdown w4 then Some (Inr (resultOf taskResult), w4)
              else
                let nextTasks =
                      resolveNext rd (directNextOf taskResult)
                        (route c (resultOf taskResult) (executionContext.truncate w4))
                in if nextTasks = Some (Single ''end'')
                   then Some (Inr (resultOf taskResult), saveWorkflow E w4)
                   else
                     (case executeAll (\<lambda>t' c' d' p'. attemptLoop fuel E t' c' d' 0 (Begun p')) E
                             (targets nextTasks (resultOf taskResult)) w4 of
                        None \<Rightarrow> None
                      | Some (Some e, w5) \<Rightarrow> catchBlock fuel E taskName c d attempt rd e w5
                      | Some (None, w5) \<Rightarrow>
                          Some (Inr (resultOf taskResult), saveWorkflow E w5))))"
| "catchBlock 0 E taskName c d attempt taskRedirect err w = None"
| "catchBlock (Suc fuel) E taskName c d attempt taskRedirect err w =
     (case err of
        BreakpointError m \<Rightarrow> Some (Inr JUndef, w)
      | Error m \<Rightarrow>
          (case onError c of
             None \<Rightarrow>
               if int (Suc attempt) > retryLimit c then Some (Inl err, w)
               else attemptLoop fuel E taskName c d (Suc attempt) (Fresh taskRedirect) w
           | Some handler \<Rightarrow>
               (let w1 = w\<lparr>trace := trace w @ [OnErrorCalled taskName err]\<rparr>
                in case handler err d (executionContext.truncate w) of
                     Inl handlerError \<Rightarrow>
                       if int (Suc attempt) > retryLimit c then Some (Inl err, w1)
                       else attemptLoop fuel E taskName c d (Suc attempt) (Fresh taskRedirect) w1
                   | Inr errorResult \<Rightarrow>
                       if retry errorResult \<and> int (Suc attempt) \<le> retryLimit c
                       then attemptLoop fuel E taskName c d (Suc attempt) (Fresh taskRedirect) w1
                       else if result errorResult \<noteq> JUndef
                       then
                         (let w2 = saveWorkflow E
                                     (markTaskComplete taskName (result errorResult) w1)
                          in case executeAll
                                    (\<lambda>t' c' d' p'. attemptLoop fuel E t' c' d' 0 (Begun p')) E
                                    (targets (next errorResult) (result errorResult)) w2 of
                               None \<Rightarrow> None
                             | Some (Some e2, w3) \<Rightarrow>
                                 if int (Suc attempt) > retryLimit c then Some (Inl err, w3)
                                 else attemptLoop fuel E taskName c d (Suc attempt)
                                        (Fresh taskRedirect) w3
                             | Some (None, w3) \<Rightarrow> Some (Inr (result errorResult), w3))
                       else
                         if int (Suc attempt) > retryLimit c then Some (Inl err, w1)
                         else attemptLoop fuel E taskName c d (Suc attempt)
                                (Fresh taskRedirect) w1)))"

text \<open>
  \<open>executeTask\<close>: the start, and then the attempt loop from the attempt that is under
  way.
\<close>

fun executeTask ::
  "nat \<Rightarrow> engine \<Rightarrow> string \<Rightarrow> jsval \<Rightarrow> world \<Rightarrow> ((error + jsval) \<times> world) option" where
  "executeTask 0 E taskName d w = None"
| "executeTask (Suc fuel) E taskName d w =
     (case startTask E taskName d w of
        (Settled r, w') \<Rightarrow> Some (r, w')
      | (Started c p, w') \<Rightarrow> attemptLoop fuel E taskName c d 0 (Begun p) w')"

text \<open>
  The world in which the attempt loop of \<open>executeTask\<close> starts: a completion left from
  an earlier run is reset, and the task is in \<open>runningTasks\<close>.
\<close>

definition enter :: "string \<Rightarrow> world \<Rightarrow> world" where
  "enter taskName w =
     (let w1 = (if taskName \<in> completedTasks w then resetTaskCompletion taskName w else w)
      in w1\<lparr>runningTasks := insert taskName (runningTasks w1)\<rparr>)"

section \<open>Example workflows and graphs\<close>

text \<open>
  The tasks below are registered as \<open>WorkflowEngine.task\<close> registers them: the router
  defaults to \<open>() => undefined\<close> and the retry count to \<open>0\<close>.
\<close>

definition plainTask :: "behaviour \<Rightarrow> task_config" where
  "plainTask b =
     \<lparr>execute = (\<lambda>attempt d ctx. b), route = (\<lambda>r ctx. None), dependencies = None,
      retryCount = Some 0, timeoutMs = None, onError = None\<rparr>"

text \<open>Scenario 3 of the spec: task \<open>H\<close> calls \<open>interrupt\<close>; once without and once with a timeout.\<close>

definition askH :: behaviour where
  "askH =
     \<lparr>calls = [Interrupt (JObj [(''q'', JStr ''continue?'')])],
      eager = 0, settles = Returns (Bare (JStr ''done'')), overran = False\<rparr>"

definition engineH :: engine where
  "engineH = addTask ''H'' (plainTask askH) (newEngine True)"

definition engineHT :: engine where
  "engineHT = addTask ''H'' ((plainTask askH)\<lparr>timeoutMs := Some 1000\<rparr>) (newEngine True)"

text \<open>The breakpoint task of every snapshot handed to the persistence layer.\<close>

fun savedBreakpoints :: "obs list \<Rightarrow> string option list" where
  "savedBreakpoints [] = []"
| "savedBreakpoints (Saved ctx # os) = breakpointTask ctx # savedBreakpoints os"
| "savedBreakpoints (x # os) = savedBreakpoints os"

text \<open>Scenario 1 of the spec: \<open>A\<close> routes to \<open>B\<close>, \<open>B\<close> routes to \<open>end\<close>.\<close>

definition configA :: task_config where
  "configA =
     (plainTask \<lparr>calls = [], eager = 0, settles = Returns (Bare (JStr ''hi'')), overran = False\<rparr>)
       \<lparr>route := (\<lambda>r ctx. Some (Single ''B''))\<rparr>"

definition configB :: task_config where
  "configB =
     (plainTask \<lparr>calls = [], eager = 0, settles = Returns (Bare (JStr ''hi done'')), overran = False\<rparr>)
       \<lparr>route := (\<lambda>r ctx. Some (Single ''end''))\<rparr>"

definition engineAB :: engine where
  "engineAB = addTask ''B'' configB (addTask ''A'' configA (newEngine False))"

text \<open>A task that throws on every attempt: without retries, and with one retry and a handler.\<close>

definition boom :: behaviour where
  "boom = \<lparr>calls = [], eager = 0, settles = Throws (Error ''boom''), overran = False\<rparr>"

definition configF :: task_config where
  "configF = plainTask boom"

definition engineF :: engine where
  "engineF = addTask ''F'' configF (newEngine False)"

definition configR :: task_config where
  "configR =
     (plainTask boom)
       \<lparr>retryCount := Some 1,
        onError := Some (\<lambda>e d ctx. Inr \<lparr>retry = False, result = JUndef, next = None\<rparr>)\<rparr>"

definition engineR :: engine where
  "engineR = addTask ''F'' configR (newEngine False)"

text \<open>
  A task that throws and whose handler recovers with a result: once naming \<open>"end"\<close> as
  the successor, once naming none (with one retry configured). And one whose handler
  throws itself (with one retry configured).
\<close>

definition configE :: task_config where
  "configE =
     (plainTask boom)
       \<lparr>onError := Some (\<lambda>e d ctx. Inr \<lparr>retry = False, result = JStr ''r'',
                                         next = Some (Single ''end'')\<rparr>)\<rparr>"

definition engineE :: engine where
  "engineE = addTask ''F'' configE (newEngine False)"

definition configV :: task_config where
  "configV =
     (plainTask boom)
       \<lparr>retryCount := Some 1,
        onError := Some (\<lambda>e d ctx. Inr \<lparr>retry = False, result = JStr ''r'', next = None\<rparr>)\<rparr>"

definition engineV :: engine where
  "engineV = addTask ''F'' configV (newEngine False)"

definition configW :: task_config where
  "configW =
     (plainTask boom)
       \<lparr>retryCount := Some 1,
        onError := Some (\<lambda>e d ctx. Inl (Error ''handler failed''))\<rparr>"

definition engineW :: engine where
  "engineW = addTask ''F'' configW (newEngine False)"

text \<open>A task that fans out to \<open>X\<close>, \<open>Y\<close> and \<open>X\<close> again.\<close>

definition configP :: task_config where
  "configP =
     plainTask \<lparr>calls = [], eager = 0,
                settles = Returns (ResultNext (JStr ''p'') (Some (Names [''X'', ''Y'', ''X'']))),
                overran = False\<rparr>"

definition engineP :: engine where
  "engineP =
     addTask ''Y'' (plainTask \<lparr>calls = [], eager = 0, settles = Returns (Bare (JStr ''y'')), overran = False\<rparr>)
       (addTask ''X'' (plainTask \<lparr>calls = [], eager = 0, settles = Returns (Bare (JStr ''x'')), overran = False\<rparr>)
          (addTask ''P'' configP (newEngine False)))"

text \<open>A task that aborts the workflow at once (\<open>abort(false)\<close>) and then returns.\<close>

definition configT :: task_config where
  "configT =
     (plainTask \<lparr>calls = [Abort False], eager = 0, settles = Returns (Bare (JStr ''x'')), overran = False\<rparr>)
       \<lparr>route := (\<lambda>r ctx. Some (Single ''U''))\<rparr>"

definition engineT :: engine where
  "engineT =
     addTask ''U'' (plainTask \<lparr>calls = [], eager = 0, settles = Returns (Bare JNull), overran = False\<rparr>)
       (addTask ''T'' configT (newEngine False))"

text \<open>A graph of two nodes whose agent calls echo their prompt.\<close>

definition graphAB :: graph where
  "graphAB =
     \<lparr>getNode = (\<lambda>n. if n = ''A'' \<or> n = ''B'' then Some \<lparr>name = n, enableReasoning = False\<rparr>
                       else None),
      shouldStop = (\<lambda>c r s. (Inr False, s)),
      processReasoningStep = (\<lambda>nd i s. (Inr [], s)),
      processAgentMessage = (\<lambda>nodeId nm nd prompt s. (Inr (nm @ '': '' @ prompt), s)),
      executeNode = (\<lambda>t i s. (Inr (), s\<lparr>completed := insert t (completed s)\<rparr>)),
      routeToFallback = (\<lambda>fb e s. (Inr (), s)),
      uuidv4 = (\<lambda>n. ''uuid-'' @ showNat n)\<rparr>"

definition newGraphState :: gstate where
  "newGraphState =
     \<lparr>results = Map.empty, completed = {}, nodeStates = [], responses = [], uuidCount = 0\<rparr>"

definition loopEdgeAB :: edge where
  "loopEdgeAB =
     \<lparr>edge_from = ''A'', edge_to = ''B'',
      config = Some (emptyConfig\<lparr>maxIterations := Some 0\<rparr>), fallback = None\<rparr>"

definition promiseEdge :: edge where
  "promiseEdge =
     \<lparr>edge_from = ''A'', edge_to = ''B'',
      config = Some (emptyConfig\<lparr>condition := Some (\<lambda>r ns. Inr (Promise (JBool False)))\<rparr>),
      fallback = None\<rparr>"

definition bareEdge :: edge where
  "bareEdge = \<lparr>edge_from = ''A'', edge_to = ''B'', config = None, fallback = None\<rparr>"

definition falseEdge :: edge where
  "falseEdge =
     \<lparr>edge_from = ''B'', edge_to = ''A'',
      config = Some (emptyConfig\<lparr>condition := Some (\<lambda>r ns. Inr (Value (JBool False)))\<rparr>),
      fallback = None\<rparr>"

section \<open>Properties of the snapshot round trip\<close>

lemma setAddAll_distinct:
  "distinct (filter isPrimitive (acc @ xs)) \<Longrightarrow> setAddAll acc xs = acc @ xs"
proof (induction xs arbitrary: acc)
  case Nil
  then show ?case by simp
next
  case (Cons x xs)
  have fresh: "\<not> (\<exists>y \<in> set acc. sameValueZero y x)"
    using Cons.prems by (auto simp: sameValueZero_def)
  have "distinct (filter isPrimitive ((acc @ [x]) @ xs))"
    using Cons.prems by simp
  then have "setAddAll (acc @ [x]) xs = (acc @ [x]) @ xs"
    by (rule Cons.IH)
  with fresh show ?case by simp
qed

lemma newSet_distinct: "distinct (filter isPrimitive xs) \<Longrightarrow> newSet xs = xs"
  using setAddAll_distinct [of "[]" xs] by (simp add: newSet_def)

lemma set_setAddAll: "set (setAddAll acc xs) = set acc \<union> set xs"
  by (induction xs arbitrary: acc) (auto simp: sameValueZero_def)

lemma set_newSet: "set (newSet xs) = set xs"
  by (simp add: newSet_def set_setAddAll)

lemma mapSet_fresh: "k \<notin> fst ` set m \<Longrightarrow> mapSet k v m = m @ [(k, v)]"
  by (induction m) auto

lemma mapSetAll_distinct:
  "distinct (map fst (acc @ es)) \<Longrightarrow> mapSetAll acc es = acc @ es"
proof (induction es arbitrary: acc)
  case Nil
  then show ?case by simp
next
  case (Cons e es)
  obtain k v where e: "e = (k, v)" by (cases e)
  have "k \<notin> fst ` set acc" using Cons.prems e by auto
  then have step: "mapSet k v acc = acc @ [(k, v)]" by (rule mapSet_fresh)
  have "distinct (map fst ((acc @ [(k, v)]) @ es))" using Cons.prems e by simp
  then have "mapSetAll (acc @ [(k, v)]) es = (acc @ [(k, v)]) @ es" by (rule Cons.IH)
  with step e show ?case by simp
qed

lemma newMap_distinct: "distinct (map fst es) \<Longrightarrow> newMap es = es"
  using mapSetAll_distinct [of "[]" es] by (simp add: newMap_def)

lemma assignAll_distinct:
  "distinct (map fst (acc @ es)) \<Longrightarrow> ''__proto__'' \<notin> set (map fst es) \<Longrightarrow>
   assignAll acc es = acc @ es"
proof (induction es arbitrary: acc)
  case Nil
  then show ?case by simp
next
  case (Cons e es)
  obtain k v where e: "e = (k, v)" by (cases e)
  have "k \<notin> fst ` set acc" using Cons.prems e by auto
  then have step: "assign k v acc = acc @ [(k, v)]"
    using Cons.prems(2) e by (auto simp: assign_def mapSet_fresh)
  have "distinct (map fst ((acc @ [(k, v)]) @ es))" using Cons.prems e by simp
  moreover have "''__proto__'' \<notin> set (map fst es)" using Cons.prems(2) by simp
  ultimately have "assignAll (acc @ [(k, v)]) es = (acc @ [(k, v)]) @ es" by (rule Cons.IH)
  with step e show ?case by simp
qed

lemma insort_key_values:
  "insort_key (\<lambda>kv. h (fst kv)) (k, f v) (map (\<lambda>(k, v). (k, f v)) ys) =
   map (\<lambda>(k, v). (k, f v)) (insort_key (\<lambda>kv. h (fst kv)) (k, v) ys)"
  by (induction ys) (auto split: prod.splits)

lemma sort_key_values:
  "sort_key (\<lambda>kv. h (fst kv)) (map (\<lambda>(k, v). (k, f v)) xs) =
   map (\<lambda>(k, v). (k, f v)) (sort_key (\<lambda>kv. h (fst kv)) xs)"
proof (induction xs)
  case Nil
  then show ?case by simp
next
  case (Cons x xs)
  obtain k v where x: "x = (k, v)" by (cases x)
  show ?case using Cons.IH insort_key_values [of h k f v "sort_key (\<lambda>kv. h (fst kv)) xs"]
    by (simp add: x)
qed

lemma ownEntries_values:
  "ownEntries (map (\<lambda>(k, v). (k, f v)) kvs) = map (\<lambda>(k, v). (k, f v)) (ownEntries kvs)"
proof -
  have f1: "filter (\<lambda>kv. isArrayIndex (fst kv)) (map (\<lambda>(k, v). (k, f v)) kvs) =
        map (\<lambda>(k, v). (k, f v)) (filter (\<lambda>kv. isArrayIndex (fst kv)) kvs)"
    by (induction kvs) (auto split: prod.splits)
  have f2: "filter (\<lambda>kv. \<not> isArrayIndex (fst kv)) (map (\<lambda>(k, v). (k, f v)) kvs) =
        map (\<lambda>(k, v). (k, f v)) (filter (\<lambda>kv. \<not> isArrayIndex (fst kv)) kvs)"
    by (induction kvs) (auto split: prod.splits)
  show ?thesis
    unfolding ownEntries_def f1 f2 by (simp add: sort_key_values)
qed

lemma fst_values: "fst \<circ> (\<lambda>(k, v). (k, f v)) = fst"
  by (auto simp: fun_eq_iff)

lemma fst_values': "(\<lambda>x. fst (case x of (k, v) \<Rightarrow> (k, f v))) = fst"
  by (auto simp: fun_eq_iff)

lemmas keys_values = fst_values fst_values'

lemma serializeState_eq_JStr: "(serializeState v = JStr s) = (v = JStr s)"
  by (cases v) auto

lemma isArray_serializeState: "isArray (serializeState v) = isArray v"
  by (cases v) auto

lemma truthy_serializeState: "truthy (serializeState v) = truthy v"
  by (cases v) auto

lemma getProp_serialized:
  "getProp (JObj (map (\<lambda>(k, v). (k, serializeState v)) kvs)) k = serializeState (getProp (JObj kvs) k)"
  by (simp add: map_of_map split: option.splits)

lemma isEnvelope_serialized:
  "isEnvelope (JObj (map (\<lambda>(k, v). (k, serializeState v)) kvs)) = isEnvelope (JObj kvs)"
  unfolding isEnvelope_def getProp_serialized
  by (simp only: serializeState_eq_JStr isArray_serializeState truthy_serializeState)

lemma deserializeState_plain:
  assumes "\<not> isEnvelope (JObj kvs)" "distinct (map fst kvs)" "''__proto__'' \<notin> set (map fst kvs)"
    "ownEntries kvs = kvs"
  shows "deserializeState (JObj kvs) = JObj (map (\<lambda>(k, v). (k, deserializeState v)) kvs)"
proof -
  let ?m = "map (\<lambda>(k, v). (k, deserializeState v)) kvs"
  have own: "ownEntries ?m = ?m" using assms(4) by (simp add: ownEntries_values)
  have "distinct (map fst ([] @ ?m))" "''__proto__'' \<notin> set (map fst ?m)"
    using assms(2,3) by (simp_all add: keys_values)
  then have "assignAll [] ?m = [] @ ?m" by (rule assignAll_distinct)
  then show ?thesis using assms(1) own by (auto simp: isEnvelope_def)
qed

lemma roundtrip_restorable:
  "restorable v \<Longrightarrow> deserializeState (serializeState v) = v"
proof (induction v)
  case (JArr xs)
  then show ?case by (simp add: map_idI)
next
  case (JObj kvs)
  let ?s = "map (\<lambda>(k, v). (k, serializeState v)) kvs"
  have ne: "\<not> isEnvelope (JObj ?s)"
    using JObj.prems by (simp add: isEnvelope_serialized)
  have keys: "distinct (map fst ?s)" "''__proto__'' \<notin> set (map fst ?s)"
    using JObj.prems by (simp_all add: keys_values)
  have own: "ownEntries ?s = ?s" using JObj.prems by (simp add: ownEntries_values)
  have each: "\<And>kv. kv \<in> set kvs \<Longrightarrow> deserializeState (serializeState (snd kv)) = snd kv"
  proof -
    fix kv assume m: "kv \<in> set kvs"
    have "snd kv \<in> Basic_BNFs.snds kv" by (cases kv) simp
    moreover have "restorable (snd kv)" using JObj.prems m by simp
    ultimately show "deserializeState (serializeState (snd kv)) = snd kv"
      using JObj.IH m by blast
  qed
  have "map (\<lambda>(k, v). (k, deserializeState v)) ?s = kvs"
    unfolding map_map by (rule map_idI) (use each in \<open>auto split: prod.splits\<close>)
  then show ?case
    using deserializeState_plain [OF ne keys own] by simp
next
  case (JSet xs)
  then show ?case by (simp add: newSet_distinct)
next
  case (JMap kvs)
  then show ?case by (simp add: newMap_distinct)
qed simp_all

lemma set_ownEntries: "set (ownEntries kvs) = set kvs"
  by (auto simp: ownEntries_def)

lemma distinct_keys_ownEntries:
  assumes "distinct (map fst kvs)"
  shows "distinct (map fst (ownEntries kvs))"
proof -
  have d: "distinct kvs" and inj: "inj_on fst (set kvs)"
    using assms by (simp_all add: distinct_map)
  have "distinct (ownEntries kvs)"
    using d by (auto simp: ownEntries_def)
  then show ?thesis
    using inj by (simp add: distinct_map set_ownEntries)
qed

lemma deserializeState_object:
  assumes "\<not> isEnvelope (JObj kvs)" "distinct (map fst kvs)" "''__proto__'' \<notin> set (map fst kvs)"
  shows "deserializeState (JObj kvs) =
           JObj (map (\<lambda>(k, v). (k, deserializeState v)) (ownEntries kvs))"
proof -
  let ?m = "map (\<lambda>(k, v). (k, deserializeState v)) (ownEntries kvs)"
  have "distinct (map fst (ownEntries kvs))" using assms(2) by (rule distinct_keys_ownEntries)
  moreover have "''__proto__'' \<notin> set (map fst (ownEntries kvs))"
    using assms(3) by (simp add: set_ownEntries)
  ultimately have "distinct (map fst ([] @ ?m))" "''__proto__'' \<notin> set (map fst ?m)"
    by (simp_all add: keys_values)
  then have "assignAll [] ?m = [] @ ?m" by (rule assignAll_distinct)
  then show ?thesis using assms(1) by (auto simp: isEnvelope_def ownEntries_values)
qed

lemma deserializeState_map_envelope:
  assumes "getProp (JObj mv) ''type'' = JStr ''Map''" "getProp (JObj mv) ''value'' = JObj es"
    "distinct (map fst es)"
  shows "deserializeState (JObj mv) = JMap (ownEntries es)"
proof -
  have "newMap (ownEntries es) = ownEntries es"
    using distinct_keys_ownEntries [OF assms(3)] by (rule newMap_distinct)
  then show ?thesis using assms(1,2) by simp
qed

text \<open>
  Claim C7, as the code has it. A plain object of the shape \<open>{type:"Set", value:[\<dots>]}\<close>
  deserializes to a \<open>Set\<close> built from exactly the elements of the array, and one of the
  shape \<open>{type:"Map", value:{\<dots>}}\<close> to a \<open>Map\<close> of exactly the entries of the object (in
  the order in which the object enumerates them); an array is deserialized element by
  element; a plain object that is no envelope and has no own key \<open>__proto__\<close> is
  deserialized key by key; a primitive passes through unchanged; and serialization followed
  by deserialization is the identity on every snapshot in which no plain object reached by
  the traversal has itself the shape of an envelope or an own key \<open>__proto__\<close> (and in
  which a \<open>Map\<close> lists its entries in the order in which an object enumerates them).
\<close>

theorem deserializeState_inverts_serializeState:
  "(getProp (JObj sv) ''type'' = JStr ''Set'' \<and> getProp (JObj sv) ''value'' = JArr xs \<longrightarrow>
      deserializeState (JObj sv) = JSet (newSet xs) \<and> set (newSet xs) = set xs) \<and>
   (getProp (JObj mv) ''type'' = JStr ''Map'' \<and> getProp (JObj mv) ''value'' = JObj es \<and>
    distinct (map fst es) \<longrightarrow>
      deserializeState (JObj mv) = JMap (ownEntries es) \<and> set (ownEntries es) = set es) \<and>
   deserializeState (JArr ys) = JArr (map deserializeState ys) \<and>
   (\<not> isEnvelope (JObj kvs) \<and> distinct (map fst kvs) \<and> ''__proto__'' \<notin> set (map fst kvs) \<longrightarrow>
      deserializeState (JObj kvs) =
        JObj (map (\<lambda>(k, v). (k, deserializeState v)) (ownEntries kvs))) \<and>
   (isPrimitive p \<longrightarrow> deserializeState p = p) \<and>
   (restorable v \<longrightarrow> deserializeState (serializeState v) = v)"
proof -
  have prim: "isPrimitive p \<longrightarrow> deserializeState p = p"
    by (cases p) simp_all
  have setenv: "getProp (JObj sv) ''type'' = JStr ''Set'' \<and> getProp (JObj sv) ''value'' = JArr xs \<longrightarrow>
      deserializeState (JObj sv) = JSet (newSet xs) \<and> set (newSet xs) = set xs"
    by (simp add: set_newSet)
  have mapenv: "getProp (JObj mv) ''type'' = JStr ''Map'' \<and> getProp (JObj mv) ''value'' = JObj es \<and>
    distinct (map fst es) \<longrightarrow>
      deserializeState (JObj mv) = JMap (ownEntries es) \<and> set (ownEntries es) = set es"
    using deserializeState_map_envelope [of mv es] set_ownEntries [of es] by blast
  have obj: "\<not> isEnvelope (JObj kvs) \<and> distinct (map fst kvs) \<and> ''__proto__'' \<notin> set (map fst kvs) \<longrightarrow>
      deserializeState (JObj kvs) =
        JObj (map (\<lambda>(k, v). (k, deserializeState v)) (ownEntries kvs))"
    using deserializeState_object [of kvs] by blast
  have arr: "deserializeState (JArr ys) = JArr (map deserializeState ys)" by simp
  have rt: "restorable v \<longrightarrow> deserializeState (serializeState v) = v"
    using roundtrip_restorable [of v] by blast
  show ?thesis using prim setenv mapenv obj arr rt by blast
qed

lemmas key_defs = ownEntries_def isArrayIndex_def digitsValue_def digitValue_def

theorem deserializeState_inverts_serializeState_witness:
  "deserializeState (JObj [(''type'', JStr ''Set''), (''value'', JArr [JStr ''A'', JStr ''B''])])
     = JSet [JStr ''A'', JStr ''B''] \<and>
   deserializeState (JObj [(''type'', JStr ''Map''), (''value'', JObj [(''A'', JNum 1), (''10'', JNum 2), (''9'', JNum 3)])])
     = JMap [(''9'', JNum 3), (''10'', JNum 2), (''A'', JNum 1)] \<and>
   deserializeState (JObj [(''q'', JArr [JStr ''continue?''])])
     = JObj [(''q'', JArr [JStr ''continue?''])] \<and>
   deserializeState (JNum 7) = JNum 7 \<and>
   restorable
     (JObj [(''completedTasks'', JSet [JStr ''A'']),
            (''taskData'', JMap [(''A'', JArr [JNum 1, JNull])]),
            (''breakpointTask'', JStr ''A'')]) \<and>
   deserializeState (serializeState
     (JObj [(''completedTasks'', JSet [JStr ''A'']),
            (''taskData'', JMap [(''A'', JArr [JNum 1, JNull])]),
            (''breakpointTask'', JStr ''A'')]))
     = JObj [(''completedTasks'', JSet [JStr ''A'']),
             (''taskData'', JMap [(''A'', JArr [JNum 1, JNull])]),
             (''breakpointTask'', JStr ''A'')]"
proof -
  have ef: "restorable
     (JObj [(''completedTasks'', JSet [JStr ''A'']),
            (''taskData'', JMap [(''A'', JArr [JNum 1, JNull])]),
            (''breakpointTask'', JStr ''A'')])"
    by (simp add: isEnvelope_def key_defs)
  have ne: "\<not> isEnvelope (JObj [(''q'', JArr [JStr ''continue?''])])"
    by (simp add: isEnvelope_def)
  have own: "ownEntries [(''A'', JNum 1), (''10'', JNum 2), (''9'', JNum 3)] =
               [(''9'', JNum 3), (''10'', JNum 2), (''A'', JNum 1)]"
       "ownEntries [(''q'', JArr [JStr ''continue?''])] = [(''q'', JArr [JStr ''continue?''])]"
    by (simp_all add: key_defs)
  show ?thesis
    using ef ne
      deserializeState_inverts_serializeState
        [of "[(''type'', JStr ''Set''), (''value'', JArr [JStr ''A'', JStr ''B''])]"
            "[JStr ''A'', JStr ''B'']"
            "[(''type'', JStr ''Map''), (''value'', JObj [(''A'', JNum 1), (''10'', JNum 2), (''9'', JNum 3)])]"
            "[(''A'', JNum 1), (''10'', JNum 2), (''9'', JNum 3)]"
            "[]"
            "[(''q'', JArr [JStr ''continue?''])]"
            "JNum 7"
            "JObj [(''completedTasks'', JSet [JStr ''A'']),
                   (''taskData'', JMap [(''A'', JArr [JNum 1, JNull])]),
                   (''breakpointTask'', JStr ''A'')]"]
    by (simp add: newSet_def sameValueZero_def own)
qed

text \<open>
  The round trip is not the identity on every snapshot: a workflow state whose breakpoint
  data is a plain object of the shape of an envelope comes back with a \<open>Set\<close> in its
  place.
\<close>

theorem roundtrip_envelope_counterexample:
  "deserializeState (serializeState
     (JObj [(''completedTasks'', JSet [JStr ''H'']),
            (''breakpointTask'', JStr ''H''),
            (''breakpointData'', JObj [(''type'', JStr ''Set''), (''value'', JArr [JNum 1])])]))
   \<noteq> JObj [(''completedTasks'', JSet [JStr ''H'']),
           (''breakpointTask'', JStr ''H''),
           (''breakpointData'', JObj [(''type'', JStr ''Set''), (''value'', JArr [JNum 1])])]"
  by (simp add: newSet_def sameValueZero_def key_defs assign_def)

text \<open>
  An own key \<open>__proto__\<close>, as \<open>JSON.parse\<close> creates it, does not come through the object
  branch: the assignment to the fresh object does not create it.
\<close>

lemma deserializeState_skips_proto_key:
  "deserializeState (JObj [(''__proto__'', JNum 1), (''a'', JNum 2)]) = JObj [(''a'', JNum 2)]"
  by (simp add: key_defs assign_def)

section \<open>Properties of the edge pattern handlers\<close>

lemma bindG_returnG [simp]: "bindG (returnG v) f st = f v st"
  by (simp add: bindG_def returnG_def)

lemma returnG_apply [simp]: "returnG v st = (Inr v, st)"
  by (simp add: returnG_def)

lemma withFallback_ok:
  "fn st = (Inr v, st') \<Longrightarrow> withFallback G e dflt fn st = (Inr v, st')"
  by (simp add: withFallback_def)

lemma loopIterations_zero [simp]:
  "loopIterations G cfg toNode fromNode 0 cur lr st = (Inr lr, st)"
  by simp

lemma loopEdge_zero:
  assumes "config e = Some c" "maxIterations c = Some 0" "outputTransform c = None"
  shows "\<exists>s'. loopEdge G src e src (log, s) = (Inr src, (log, s')) \<and>
               responses s' = responses s \<and> uuidCount s' = uuidCount s \<and>
               nodeStates s' = nodeStates s"
  using assms
  by (auto simp: loopEdge_def bindG_def modifyG_def split: option.splits)

lemma loopEdges_zero:
  assumes "\<forall>e \<in> set edges. \<exists>c. config e = Some c \<and> maxIterations c = Some 0 \<and> outputTransform c = None"
  shows "\<exists>s'. loopEdges G src edges src (log, s) = (Inr src, (log, s')) \<and>
               responses s' = responses s \<and> uuidCount s' = uuidCount s \<and>
               nodeStates s' = nodeStates s"
  using assms
proof (induction edges arbitrary: s)
  case Nil
  then show ?case by simp
next
  case (Cons e es)
  then obtain c where c: "config e = Some c" "maxIterations c = Some 0" "outputTransform c = None"
    by auto
  obtain s1 where s1: "loopEdge G src e src (log, s) = (Inr src, (log, s1))"
      "responses s1 = responses s" "uuidCount s1 = uuidCount s" "nodeStates s1 = nodeStates s"
    using loopEdge_zero [OF c] by blast
  have wf: "withFallback G e src (loopEdge G src e src) (log, s) = (Inr src, (log, s1))"
    using s1(1) by (rule withFallback_ok)
  obtain s2 where s2: "loopEdges G src es src (log, s1) = (Inr src, (log, s2))"
      "responses s2 = responses s1" "uuidCount s2 = uuidCount s1" "nodeStates s2 = nodeStates s1"
    using Cons.IH [of s1] Cons.prems by auto
  have "loopEdges G src (e # es) src (log, s) = (Inr src, (log, s2))"
    using wf s2(1) by (simp add: bindG_def)
  then show ?case using s1 s2 by simp
qed

text \<open>
  Claim C9. When every loop edge handed to the handler has \<open>maxIterations = 0\<close> and no
  \<open>outputTransform\<close>, the handler returns the source response unchanged and runs no
  node: it makes no call into the graph and pushes nothing onto \<open>responses\<close>.
\<close>

theorem loop_zero_iterations:
  assumes "\<forall>e \<in> set edges. \<exists>c. config e = Some c \<and> maxIterations c = Some 0 \<and> outputTransform c = None"
  shows "fst (LoopEdgeHandler_handle G edges sourceResponse st) = Inr sourceResponse \<and>
         newCalls (LoopEdgeHandler_handle G edges sourceResponse) st = [] \<and>
         responses (snd (snd (LoopEdgeHandler_handle G edges sourceResponse st))) = responses (snd st)"
proof -
  obtain log s where st: "st = (log, s)" by (cases st)
  obtain s' where "loopEdges G sourceResponse edges sourceResponse (log, s) = (Inr sourceResponse, (log, s'))"
      "responses s' = responses s"
    using loopEdges_zero [OF assms] by blast
  then show ?thesis
    by (simp add: LoopEdgeHandler_handle_def newCalls_def st)
qed

theorem loop_zero_iterations_witness:
  "fst (LoopEdgeHandler_handle graphAB [loopEdgeAB] ''draft'' ([], newGraphState)) = Inr ''draft'' \<and>
   newCalls (LoopEdgeHandler_handle graphAB [loopEdgeAB] ''draft'') ([], newGraphState) = []"
proof -
  have h: "\<forall>e \<in> set [loopEdgeAB]. \<exists>c. config e = Some c \<and> maxIterations c = Some 0 \<and> outputTransform c = None"
    by (simp add: loopEdgeAB_def emptyConfig_def)
  show ?thesis
    using loop_zero_iterations [OF h, of graphAB "''draft''" "([], newGraphState)"] by simp
qed

lemma callG_log: "fst (snd (callG c m (log, s))) = log @ [c]"
  by (simp add: callG_def split: prod.splits)

lemma executed_log:
  "\<exists>suffix. fst (snd (bindG (withFallback G e () (callG c m)) (\<lambda>_. returnG src) (log, s))) = log @ c # suffix"
  by (auto simp: bindG_def withFallback_def callG_def split: prod.splits sum.splits option.splits)

lemma condition_single:
  "(NodeExecuted (edge_to e) src \<in> set (newCalls (ConditionEdgeHandler_handle G [e] src) st)) =
   (\<exists>r. callCondition e src (nodeStates (snd st)) = Inr r \<and> returnedTruthy r)"
proof (cases "callCondition e src (nodeStates (snd st))")
  case (Inl err)
  then show ?thesis by (simp add: newCalls_def)
next
  case (Inr r)
  obtain log s where st: "st = (log, s)" by (cases st)
  show ?thesis
  proof (cases "returnedTruthy r")
    case True
    obtain suffix where
      "fst (snd (bindG (withFallback G e () (callG (NodeExecuted (edge_to e) src) (executeNode G (edge_to e) src)))
          (\<lambda>_. returnG src) (log, s))) = log @ NodeExecuted (edge_to e) src # suffix"
      using executed_log [of G e "NodeExecuted (edge_to e) src" "executeNode G (edge_to e) src" src log s]
      by (elim exE)
    then show ?thesis using Inr True st
      by (simp add: newCalls_def returnG_def [abs_def])
  next
    case False
    then show ?thesis using Inr by (simp add: newCalls_def)
  qed
qed

lemma withFallback_callG_shape:
  "\<exists>r s' extra. withFallback G e () (callG c m) (log, s) = (r, (log @ c # extra, s')) \<and>
     (\<forall>t i. NodeExecuted t i \<notin> set extra)"
  by (auto simp: bindG_def withFallback_def callG_def split: prod.splits sum.splits option.splits)

lemma callCondition_truthy:
  "callCondition e src ns = Inr r \<Longrightarrow> returnedTruthy r \<Longrightarrow>
   \<exists>c f. config e = Some c \<and> condition c = Some f \<and> f src ns = Inr r"
  by (auto simp: callCondition_def split: option.splits)

lemma condition_log:
  "\<exists>suffix. fst (snd (ConditionEdgeHandler_handle G edges src (log, s))) = log @ suffix \<and>
     (\<forall>t i. NodeExecuted t i \<in> set suffix \<longrightarrow>
        i = src \<and> (\<exists>e \<in> set edges. t = edge_to e \<and> (\<exists>c f. config e = Some c \<and> condition c = Some f)))"
proof (induction edges arbitrary: log s)
  case Nil
  then show ?case by simp
next
  case (Cons e es)
  show ?case
  proof (cases "callCondition e src (nodeStates s)")
    case (Inl err)
    then show ?thesis by simp
  next
    case (Inr r)
    show ?thesis
    proof (cases "returnedTruthy r")
      case False
      then show ?thesis using Inr Cons.IH [of log s] by auto
    next
      case True
      obtain c f where cf: "config e = Some c" "condition c = Some f"
        using callCondition_truthy [OF Inr True] by blast
      let ?c = "NodeExecuted (edge_to e) src"
      obtain r1 s1 extra where w:
        "withFallback G e () (callG ?c (executeNode G (edge_to e) src)) (log, s) = (r1, (log @ ?c # extra, s1))"
        "\<forall>t i. NodeExecuted t i \<notin> set extra"
        using withFallback_callG_shape [of G e ?c "executeNode G (edge_to e) src" log s] by blast
      show ?thesis
      proof (cases r1)
        case (Inl err)
        then have "fst (snd (ConditionEdgeHandler_handle G (e # es) src (log, s))) = log @ ?c # extra"
          using Inr True w(1) by (simp add: bindG_def)
        then show ?thesis using w(2) cf by auto
      next
        case (Inr u)
        obtain suffix where sf:
          "fst (snd (ConditionEdgeHandler_handle G es src (log @ ?c # extra, s1))) = (log @ ?c # extra) @ suffix"
          "\<forall>t i. NodeExecuted t i \<in> set suffix \<longrightarrow>
             i = src \<and> (\<exists>e \<in> set es. t = edge_to e \<and> (\<exists>c f. config e = Some c \<and> condition c = Some f))"
          using Cons.IH [of "log @ ?c # extra" s1] by blast
        have "fst (snd (ConditionEdgeHandler_handle G (e # es) src (log, s))) = log @ (?c # extra @ suffix)"
          using \<open>callCondition e src (nodeStates s) = Inr r\<close> True w(1) Inr sf(1) by (simp add: bindG_def)
        moreover have "\<forall>t i. NodeExecuted t i \<in> set (?c # extra @ suffix) \<longrightarrow>
             i = src \<and> (\<exists>e' \<in> set (e # es). t = edge_to e' \<and> (\<exists>c f. config e' = Some c \<and> condition c = Some f))"
          using w(2) cf sf(2) by auto
        ultimately show ?thesis by blast
      qed
    qed
  qed
qed

lemma newCalls_condition:
  "NodeExecuted t i \<in> set (newCalls (ConditionEdgeHandler_handle G edges src) st) \<Longrightarrow>
   i = src \<and> (\<exists>e \<in> set edges. t = edge_to e \<and> (\<exists>c f. config e = Some c \<and> condition c = Some f))"
proof -
  assume a: "NodeExecuted t i \<in> set (newCalls (ConditionEdgeHandler_handle G edges src) st)"
  obtain log s where st: "st = (log, s)" by (cases st)
  obtain suffix where sf: "fst (snd (ConditionEdgeHandler_handle G edges src (log, s))) = log @ suffix"
     "\<forall>t i. NodeExecuted t i \<in> set suffix \<longrightarrow>
        i = src \<and> (\<exists>e \<in> set edges. t = edge_to e \<and> (\<exists>c f. config e = Some c \<and> condition c = Some f))"
    using condition_log [of G edges src log s] by blast
  have "newCalls (ConditionEdgeHandler_handle G edges src) st = suffix"
    using sf(1) st by (simp add: newCalls_def)
  then show ?thesis using a sf(2) by blast
qed

lemma condition_append:
  "ConditionEdgeHandler_handle G (es1 @ es2) src =
     bindG (ConditionEdgeHandler_handle G es1 src) (\<lambda>_. ConditionEdgeHandler_handle G es2 src)"
proof (induction es1)
  case Nil
  then show ?case by (simp add: bindG_def returnG_def fun_eq_iff)
next
  case (Cons e es1)
  show ?case
  proof (rule ext)
    fix st
    show "ConditionEdgeHandler_handle G ((e # es1) @ es2) src st =
          bindG (ConditionEdgeHandler_handle G (e # es1) src)
            (\<lambda>_. ConditionEdgeHandler_handle G es2 src) st"
    proof (cases "callCondition e src (nodeStates (snd st))")
      case (Inl err)
      then show ?thesis by (simp add: bindG_def)
    next
      case (Inr r)
      then show ?thesis
        using Cons
        by (simp add: bindG_def split: prod.splits sum.splits)
    qed
  qed
qed

lemma condition_executes:
  assumes "config e = Some c" "condition c = Some f" "f src (nodeStates s) = Inr r"
    "returnedTruthy r"
  shows "ConditionEdgeHandler_handle G [e] src (log, s) =
           (case executeNode G (edge_to e) src s of
              (Inr u, s') \<Rightarrow> (Inr src, log @ [NodeExecuted (edge_to e) src], s')
            | (Inl err, s') \<Rightarrow>
                (case fallback e of
                   None \<Rightarrow> (Inl err, log @ [NodeExecuted (edge_to e) src], s')
                 | Some fb \<Rightarrow>
                     (case routeToFallback G fb err s' of
                        (Inr u, s'') \<Rightarrow>
                          (Inr src, log @ [NodeExecuted (edge_to e) src, FallbackRouted fb], s'')
                      | (Inl err', s'') \<Rightarrow>
                          (Inl err', log @ [NodeExecuted (edge_to e) src, FallbackRouted fb], s''))))"
  using assms
  by (simp add: callCondition_def bindG_def withFallback_def callG_def returnG_def
      split: prod.splits sum.splits option.splits)

lemma condition_skips:
  assumes "config e = None \<or> (\<exists>c. config e = Some c \<and> condition c = None) \<or>
           (\<exists>c f r. config e = Some c \<and> condition c = Some f \<and>
                     f src (nodeStates s) = Inr r \<and> \<not> returnedTruthy r)"
  shows "ConditionEdgeHandler_handle G [e] src (log, s) = (Inr src, log, s)"
  using assms by (auto simp: callCondition_def)

lemma condition_reached:
  assumes pre: "ConditionEdgeHandler_handle G es1 src st = (Inr r1, st1)"
    and c: "config e = Some c" "condition c = Some f" "f src (nodeStates (snd st1)) = Inr r"
      "returnedTruthy r"
  shows "NodeExecuted (edge_to e) src
           \<in> set (newCalls (ConditionEdgeHandler_handle G (es1 @ e # es2) src) st)"
proof -
  obtain log s where st: "st = (log, s)" by (cases st)
  obtain log1 s1 where st1: "st1 = (log1, s1)" by (cases st1)
  obtain suffix1 where s1: "log1 = log @ suffix1"
    using condition_log [of G es1 src log s] pre st st1 by auto
  have cc: "callCondition e src (nodeStates s1) = Inr r"
    using c st1 by (simp add: callCondition_def)
  let ?c = "NodeExecuted (edge_to e) src"
  obtain r2 s2 extra where w:
    "withFallback G e () (callG ?c (executeNode G (edge_to e) src)) (log1, s1) =
       (r2, (log1 @ ?c # extra, s2))"
    using withFallback_callG_shape [of G e ?c "executeNode G (edge_to e) src" log1 s1] by blast
  have "\<exists>suffix2. fst (snd (ConditionEdgeHandler_handle G (e # es2) src (log1, s1))) =
          log1 @ ?c # suffix2"
  proof (cases r2)
    case (Inl err)
    then show ?thesis using cc c(4) w by (simp add: bindG_def)
  next
    case (Inr u)
    obtain suffix where "fst (snd (ConditionEdgeHandler_handle G es2 src (log1 @ ?c # extra, s2))) =
        (log1 @ ?c # extra) @ suffix"
      using condition_log [of G es2 src "log1 @ ?c # extra" s2] by blast
    then show ?thesis using cc c(4) w Inr by (simp add: bindG_def)
  qed
  then obtain suffix2 where
    "fst (snd (ConditionEdgeHandler_handle G (e # es2) src (log1, s1))) = log1 @ ?c # suffix2"
    by blast
  then have "fst (snd (ConditionEdgeHandler_handle G (es1 @ e # es2) src st)) =
               log @ suffix1 @ ?c # suffix2"
    using pre st1 s1 by (simp add: condition_append bindG_def)
  then show ?thesis using st by (simp add: newCalls_def)
qed

text \<open>
  Claim C10. The condition handler takes the edges one after the other, each from the
  state the edges before it have left. For an edge that has a condition whose immediate
  return value is truthy it executes the destination: \<open>graph.executeNode\<close> is called
  with the destination and the source response, and its effect on the graph is the effect
  of the handler. For an edge without config, without condition, or whose condition
  returns a falsy value the handler does nothing. So the destination of an edge is
  executed exactly when the edge has a condition whose immediate return value is truthy;
  among several edges, a destination is executed only for an edge that has a condition,
  and it is executed for every edge that is reached and whose condition returns a truthy
  value. The return value is not awaited: a condition that returns a promise has its
  destination executed, whatever the promise resolves to.
\<close>

theorem condition_executes_iff_truthy:
  "((NodeExecuted (edge_to e) src \<in> set (newCalls (ConditionEdgeHandler_handle G [e] src) st)) =
      (\<exists>c f r. config e = Some c \<and> condition c = Some f \<and>
               f src (nodeStates (snd st)) = Inr r \<and> returnedTruthy r)) \<and>
   (\<forall>t i. NodeExecuted t i \<in> set (newCalls (ConditionEdgeHandler_handle G edges src) st) \<longrightarrow>
      i = src \<and> (\<exists>e' \<in> set edges. t = edge_to e' \<and>
                   (\<exists>c f. config e' = Some c \<and> condition c = Some f))) \<and>
   (\<forall>c f v. config e = Some c \<and> condition c = Some f \<and>
            f src (nodeStates (snd st)) = Inr (Promise v) \<longrightarrow>
      NodeExecuted (edge_to e) src \<in> set (newCalls (ConditionEdgeHandler_handle G [e] src) st)) \<and>
   (\<forall>es1 es2. ConditionEdgeHandler_handle G (es1 @ es2) src st =
      (case ConditionEdgeHandler_handle G es1 src st of
         (Inl err, st1) \<Rightarrow> (Inl err, st1)
       | (Inr r1, st1) \<Rightarrow> ConditionEdgeHandler_handle G es2 src st1)) \<and>
   (\<forall>c f r u log s s'. config e = Some c \<and> condition c = Some f \<and>
        f src (nodeStates s) = Inr r \<and> returnedTruthy r \<and>
        executeNode G (edge_to e) src s = (Inr u, s') \<longrightarrow>
      ConditionEdgeHandler_handle G [e] src (log, s) =
        (Inr src, log @ [NodeExecuted (edge_to e) src], s')) \<and>
   (\<forall>c f r err log s s'. config e = Some c \<and> condition c = Some f \<and>
        f src (nodeStates s) = Inr r \<and> returnedTruthy r \<and>
        executeNode G (edge_to e) src s = (Inl err, s') \<and> fallback e = None \<longrightarrow>
      ConditionEdgeHandler_handle G [e] src (log, s) =
        (Inl err, log @ [NodeExecuted (edge_to e) src], s')) \<and>
   (\<forall>log s. config e = None \<or> (\<exists>c. config e = Some c \<and> condition c = None) \<or>
        (\<exists>c f r. config e = Some c \<and> condition c = Some f \<and>
                  f src (nodeStates s) = Inr r \<and> \<not> returnedTruthy r) \<longrightarrow>
      ConditionEdgeHandler_handle G [e] src (log, s) = (Inr src, log, s)) \<and>
   (\<forall>es1 es2 r1 st1 c f r. ConditionEdgeHandler_handle G es1 src st = (Inr r1, st1) \<and>
        config e = Some c \<and> condition c = Some f \<and>
        f src (nodeStates (snd st1)) = Inr r \<and> returnedTruthy r \<longrightarrow>
      NodeExecuted (edge_to e) src
        \<in> set (newCalls (ConditionEdgeHandler_handle G (es1 @ e # es2) src) st)) \<and>
   (\<forall>es1 es2 r1 st1 c f v. ConditionEdgeHandler_handle G es1 src st = (Inr r1, st1) \<and>
        config e = Some c \<and> condition c = Some f \<and>
        f src (nodeStates (snd st1)) = Inr (Promise v) \<longrightarrow>
      NodeExecuted (edge_to e) src
        \<in> set (newCalls (ConditionEdgeHandler_handle G (es1 @ e # es2) src) st))"
proof -
  have iff: "(\<exists>r. callCondition e src (nodeStates (snd st)) = Inr r \<and> returnedTruthy r) =
             (\<exists>c f r. config e = Some c \<and> condition c = Some f \<and>
                      f src (nodeStates (snd st)) = Inr r \<and> returnedTruthy r)"
    by (auto simp: callCondition_def split: option.splits)
  have one: "(NodeExecuted (edge_to e) src \<in> set (newCalls (ConditionEdgeHandler_handle G [e] src) st)) =
      (\<exists>c f r. config e = Some c \<and> condition c = Some f \<and>
               f src (nodeStates (snd st)) = Inr r \<and> returnedTruthy r)"
    using condition_single [of e src G st] iff by simp
  have promise: "\<forall>c f v. config e = Some c \<and> condition c = Some f \<and>
            f src (nodeStates (snd st)) = Inr (Promise v) \<longrightarrow>
      NodeExecuted (edge_to e) src \<in> set (newCalls (ConditionEdgeHandler_handle G [e] src) st)"
    unfolding one by auto
  have only: "\<forall>t i. NodeExecuted t i \<in> set (newCalls (ConditionEdgeHandler_handle G edges src) st) \<longrightarrow>
      i = src \<and> (\<exists>e' \<in> set edges. t = edge_to e' \<and>
                   (\<exists>c f. config e' = Some c \<and> condition c = Some f))"
    using newCalls_condition [of _ _ G edges src st] by blast
  have app: "\<forall>es1 es2. ConditionEdgeHandler_handle G (es1 @ es2) src st =
      (case ConditionEdgeHandler_handle G es1 src st of
         (Inl err, st1) \<Rightarrow> (Inl err, st1)
       | (Inr r1, st1) \<Rightarrow> ConditionEdgeHandler_handle G es2 src st1)"
    by (simp add: condition_append bindG_def)
  have exec: "\<forall>c f r u log s s'. config e = Some c \<and> condition c = Some f \<and>
        f src (nodeStates s) = Inr r \<and> returnedTruthy r \<and>
        executeNode G (edge_to e) src s = (Inr u, s') \<longrightarrow>
      ConditionEdgeHandler_handle G [e] src (log, s) =
        (Inr src, log @ [NodeExecuted (edge_to e) src], s')"
    using condition_executes [of e _ _ src _ _ G] by (simp del: ConditionEdgeHandler_handle.simps)
  have fails: "\<forall>c f r err log s s'. config e = Some c \<and> condition c = Some f \<and>
        f src (nodeStates s) = Inr r \<and> returnedTruthy r \<and>
        executeNode G (edge_to e) src s = (Inl err, s') \<and> fallback e = None \<longrightarrow>
      ConditionEdgeHandler_handle G [e] src (log, s) =
        (Inl err, log @ [NodeExecuted (edge_to e) src], s')"
    using condition_executes [of e _ _ src _ _ G] by (simp del: ConditionEdgeHandler_handle.simps)
  have skips: "\<forall>log s. config e = None \<or> (\<exists>c. config e = Some c \<and> condition c = None) \<or>
        (\<exists>c f r. config e = Some c \<and> condition c = Some f \<and>
                  f src (nodeStates s) = Inr r \<and> \<not> returnedTruthy r) \<longrightarrow>
      ConditionEdgeHandler_handle G [e] src (log, s) = (Inr src, log, s)"
    using condition_skips [of e src _ G] by blast
  have reached: "\<forall>es1 es2 r1 st1 c f r. ConditionEdgeHandler_handle G es1 src st = (Inr r1, st1) \<and>
        config e = Some c \<and> condition c = Some f \<and>
        f src (nodeStates (snd st1)) = Inr r \<and> returnedTruthy r \<longrightarrow>
      NodeExecuted (edge_to e) src
        \<in> set (newCalls (ConditionEdgeHandler_handle G (es1 @ e # es2) src) st)"
    using condition_reached [of G _ src st _ _ e] by blast
  have reachedP: "\<forall>es1 es2 r1 st1 c f v. ConditionEdgeHandler_handle G es1 src st = (Inr r1, st1) \<and>
        config e = Some c \<and> condition c = Some f \<and>
        f src (nodeStates (snd st1)) = Inr (Promise v) \<longrightarrow>
      NodeExecuted (edge_to e) src
        \<in> set (newCalls (ConditionEdgeHandler_handle G (es1 @ e # es2) src) st)"
  proof (intro allI impI)
    fix es1 es2 r1 st1 c f v
    assume a: "ConditionEdgeHandler_handle G es1 src st = (Inr r1, st1) \<and>
        config e = Some c \<and> condition c = Some f \<and>
        f src (nodeStates (snd st1)) = Inr (Promise v)"
    have "returnedTruthy (Promise v)" by simp
    then show "NodeExecuted (edge_to e) src
        \<in> set (newCalls (ConditionEdgeHandler_handle G (es1 @ e # es2) src) st)"
      using a condition_reached [of G es1 src st r1 st1 e c f "Promise v" es2] by blast
  qed
  show ?thesis
    using one only promise app exec fails skips reached reachedP by blast
qed

theorem condition_executes_iff_truthy_witness:
  "NodeExecuted ''B'' ''draft''
     \<in> set (newCalls (ConditionEdgeHandler_handle graphAB [promiseEdge] ''draft'') ([], newGraphState)) \<and>
   NodeExecuted ''B'' ''draft''
     \<notin> set (newCalls (ConditionEdgeHandler_handle graphAB [bareEdge] ''draft'') ([], newGraphState)) \<and>
   ConditionEdgeHandler_handle graphAB [bareEdge, falseEdge, promiseEdge] ''draft'' ([], newGraphState) =
     (Inr ''draft'', [NodeExecuted ''B'' ''draft''], newGraphState\<lparr>completed := {''B''}\<rparr>)"
proof -
  have p: "edge_to promiseEdge = ''B''"
     "config promiseEdge = Some (emptyConfig\<lparr>condition := Some (\<lambda>r ns. Inr (Promise (JBool False)))\<rparr>)"
    by (simp_all add: promiseEdge_def)
  have b: "edge_to bareEdge = ''B''" "config bareEdge = None"
    by (simp_all add: bareEdge_def)
  have f: "config falseEdge = Some (emptyConfig\<lparr>condition := Some (\<lambda>r ns. Inr (Value (JBool False)))\<rparr>)"
    by (simp add: falseEdge_def)
  have x: "executeNode graphAB ''B'' ''draft'' newGraphState =
             (Inr (), newGraphState\<lparr>completed := {''B''}\<rparr>)"
    by (simp add: graphAB_def newGraphState_def)
  note P = condition_executes_iff_truthy [of promiseEdge "''draft''" graphAB "([], newGraphState)" "[]"]
  note B = condition_executes_iff_truthy [of bareEdge "''draft''" graphAB "([], newGraphState)" "[]"]
  note F = condition_executes_iff_truthy [of falseEdge "''draft''" graphAB "([], newGraphState)" "[]"]
  have one: "NodeExecuted ''B'' ''draft''
      \<in> set (newCalls (ConditionEdgeHandler_handle graphAB [promiseEdge] ''draft'') ([], newGraphState))"
    using P by (simp add: p)
  have none: "NodeExecuted ''B'' ''draft''
      \<notin> set (newCalls (ConditionEdgeHandler_handle graphAB [bareEdge] ''draft'') ([], newGraphState))"
    using B by (simp add: b)
  have sb: "ConditionEdgeHandler_handle graphAB [bareEdge] ''draft'' ([], newGraphState) =
              (Inr ''draft'', [], newGraphState)"
    using B b by blast
  have sf: "ConditionEdgeHandler_handle graphAB [falseEdge] ''draft'' ([], newGraphState) =
              (Inr ''draft'', [], newGraphState)"
  proof -
    have "\<exists>c f r. config falseEdge = Some c \<and> condition c = Some f \<and>
            f ''draft'' (nodeStates newGraphState) = Inr r \<and> \<not> returnedTruthy r"
      by (simp add: f)
    then show ?thesis using F by blast
  qed
  note exec = P [THEN conjunct2, THEN conjunct2, THEN conjunct2, THEN conjunct2, THEN conjunct1,
                  rule_format]
  have sp: "ConditionEdgeHandler_handle graphAB [promiseEdge] ''draft'' ([], newGraphState) =
              (Inr ''draft'', [] @ [NodeExecuted (edge_to promiseEdge) ''draft''],
               newGraphState\<lparr>completed := {''B''}\<rparr>)"
    by (rule exec [where c = "emptyConfig\<lparr>condition := Some (\<lambda>r ns. Inr (Promise (JBool False)))\<rparr>"
                     and f = "\<lambda>r ns. Inr (Promise (JBool False))"
                     and r = "Promise (JBool False)" and u = "()"])
       (simp add: p x)
  have a1: "ConditionEdgeHandler_handle graphAB ([bareEdge] @ [falseEdge, promiseEdge]) ''draft''
              ([], newGraphState) =
            ConditionEdgeHandler_handle graphAB [falseEdge, promiseEdge] ''draft'' ([], newGraphState)"
    using B sb by (simp del: ConditionEdgeHandler_handle.simps append.simps)
  have a2: "ConditionEdgeHandler_handle graphAB ([falseEdge] @ [promiseEdge]) ''draft''
              ([], newGraphState) =
            ConditionEdgeHandler_handle graphAB [promiseEdge] ''draft'' ([], newGraphState)"
    using F sf by (simp del: ConditionEdgeHandler_handle.simps append.simps)
  have "ConditionEdgeHandler_handle graphAB [bareEdge, falseEdge, promiseEdge] ''draft'' ([], newGraphState) =
     (Inr ''draft'', [NodeExecuted ''B'' ''draft''], newGraphState\<lparr>completed := {''B''}\<rparr>)"
    using a1 a2 sp p(1) by (simp del: ConditionEdgeHandler_handle.simps)
  then show ?thesis using one none by blast
qed

section \<open>Properties of the workflow engine\<close>

lemmas ex_defs = engineH_def engineHT_def engineAB_def engineF_def engineR_def engineT_def
  engineE_def engineV_def engineW_def engineP_def
  configA_def configB_def configF_def configR_def configT_def configE_def configV_def
  configW_def configP_def boom_def askH_def plainTask_def addTask_def newEngine_def newWorld_def
lemmas run_defs = startTask_def attemptOutcome_def executeAll_def beginExecute_def
  settleExecute_def invokeExecute_def hasTimeout_def retryLimit_def dependenciesComplete_def
  markTaskComplete_def emitTaskExecutionEvent_def getTaskExecutionCount_def createBreakpoint_def
  saveWorkflow_def completeAttempt_def resolveNext_def abortWorkflow_def resetTaskCompletion_def
  executionContext.truncate_def

subsection \<open>An invocation as a whole\<close>

lemma directCalls_append:
  "directCalls E t (cs @ ds) rd w =
     (case directCalls E t cs rd w of
        (Some e, rd', w') \<Rightarrow> (Some e, rd', w')
      | (None, rd', w') \<Rightarrow> directCalls E t ds rd' w')"
proof (induction cs arbitrary: rd w)
  case Nil
  then show ?case by simp
next
  case (Cons x cs)
  then show ?case by (cases x) (simp_all split: sum.splits)
qed

lemma timeoutCalls_append:
  "timeoutCalls (cs @ ds) rd w =
     (case timeoutCalls cs rd w of (rd', w') \<Rightarrow> timeoutCalls ds rd' w')"
proof (induction cs arbitrary: rd w)
  case Nil
  then show ?case by simp
next
  case (Cons x cs)
  then show ?case by (cases x) simp_all
qed

text \<open>
  When nothing interleaves with it, an invocation is the call of \<open>execute\<close> with all
  the calls of the callback in one sequence.
\<close>

lemma invokeExecute_whole:
  "invokeExecute E taskName c attempt d taskRedirect w =
     (let b = execute c attempt d (executionContext.truncate w);
          w0 = w\<lparr>trace := trace w @ [ExecuteCalled taskName attempt d]\<rparr>
      in if hasTimeout c
         then (case timeoutCalls (calls b) taskRedirect w0 of
                 (rd, w') \<Rightarrow> (if overran b then Throws timeoutError else settles b, rd, w'))
         else (case directCalls E taskName (calls b) taskRedirect w0 of
                 (Some e, rd, w') \<Rightarrow> (Throws e, rd, w')
               | (None, rd, w') \<Rightarrow> (settles b, rd, w')))"
proof -
  let ?b = "execute c attempt d (executionContext.truncate w)"
  let ?w0 = "w\<lparr>trace := trace w @ [ExecuteCalled taskName attempt d]\<rparr>"
  have t: "timeoutCalls (calls ?b) taskRedirect ?w0 =
        (case timeoutCalls (take (eager ?b) (calls ?b)) taskRedirect ?w0 of
           (rd', w') \<Rightarrow> timeoutCalls (drop (eager ?b) (calls ?b)) rd' w')"
    using timeoutCalls_append [of "take (eager ?b) (calls ?b)" "drop (eager ?b) (calls ?b)"]
    by simp
  have d: "directCalls E taskName (calls ?b) taskRedirect ?w0 =
        (case directCalls E taskName (take (eager ?b) (calls ?b)) taskRedirect ?w0 of
           (Some e, rd', w') \<Rightarrow> (Some e, rd', w')
         | (None, rd', w') \<Rightarrow> directCalls E taskName (drop (eager ?b) (calls ?b)) rd' w')"
    using directCalls_append [of E taskName "take (eager ?b) (calls ?b)" "drop (eager ?b) (calls ?b)"]
    by simp
  show ?thesis
  proof (cases "hasTimeout c")
    case True
    obtain rd1 w1 where e: "timeoutCalls (take (eager ?b) (calls ?b)) taskRedirect ?w0 = (rd1, w1)"
      by (cases "timeoutCalls (take (eager ?b) (calls ?b)) taskRedirect ?w0")
    show ?thesis
      using True e
      by (simp add: invokeExecute_def beginExecute_def settleExecute_def Let_def t)
  next
    case False
    obtain err rd1 w1 where
      e: "directCalls E taskName (take (eager ?b) (calls ?b)) taskRedirect ?w0 = (err, rd1, w1)"
      by (cases "directCalls E taskName (take (eager ?b) (calls ?b)) taskRedirect ?w0")
    show ?thesis
    proof (cases err)
      case None
      then show ?thesis
        using False e
        by (simp add: invokeExecute_def beginExecute_def settleExecute_def Let_def d
            split: prod.splits option.splits)
    next
      case (Some x)
      then show ?thesis
        using False e
        by (simp add: invokeExecute_def beginExecute_def settleExecute_def Let_def d)
    qed
  qed
qed

lemma attemptLoop_begun:
  assumes "int k \<le> retryLimit c" "beginExecute E t c k d rd w = (p, w')"
  shows "attemptLoop fuel E t c d k (Begun p) w' = attemptLoop fuel E t c d k (Fresh rd) w"
  using assms by (cases fuel) (simp_all add: attemptOutcome_def invokeExecute_def)

lemma attemptOutcome_fresh:
  "int k \<le> retryLimit c \<Longrightarrow>
   attemptOutcome E t c d k (Fresh rd) w = Some (invokeExecute E t c k d rd w)"
  by (simp add: attemptOutcome_def)

lemma executeTask_enter:
  assumes "tasks E t = Some c" "\<not> (aborted w \<and> \<not> gracefulShutdown w)"
    "dependenciesComplete c w" "t \<notin> runningTasks w" "0 \<le> retryLimit c"
  shows "executeTask (Suc fuel) E t d w = attemptLoop fuel E t c d 0 (Fresh None) (enter t w)"
proof -
  obtain p w' where b: "beginExecute E t c 0 d None (enter t w) = (p, w')"
    by (cases "beginExecute E t c 0 d None (enter t w)")
  have "startTask E t d w = (Started c p, w')"
    using assms b by (auto simp: startTask_def enter_def resetTaskCompletion_def Let_def)
  then show ?thesis
    using attemptLoop_begun [OF _ b, of fuel] assms(5) by simp
qed

lemma trace_enter [simp]: "trace (enter t w) = trace w"
  by (simp add: enter_def resetTaskCompletion_def Let_def)

lemma directCalls_quiet:
  "\<forall>x. Interrupt x \<notin> set cs \<Longrightarrow>
   \<exists>rd' w'. directCalls E t cs rd w = (None, rd', w') \<and> trace w' = trace w \<and>
            runningTasks w' = runningTasks w"
proof (induction cs arbitrary: rd w)
  case Nil
  then show ?case by simp
next
  case (Cons x cs)
  then have IH: "\<And>rd w. \<exists>rd' w'. directCalls E t cs rd w = (None, rd', w') \<and> trace w' = trace w \<and>
            runningTasks w' = runningTasks w"
    by simp
  show ?case
  proof (cases x)
    case (Abort g)
    then show ?thesis using IH [of rd "abortWorkflow g w"] by (simp add: abortWorkflow_def)
  next
    case (RedirectTo r)
    then show ?thesis using IH [of "Some r" w] by simp
  next
    case (Interrupt v)
    then have False using Cons.prems by auto
    then show ?thesis ..
  qed
qed

lemma timeoutCalls_quiet:
  "\<exists>rd' w'. timeoutCalls cs rd w = (rd', w') \<and> trace w' = trace w \<and> runningTasks w' = runningTasks w"
proof (induction cs arbitrary: rd w)
  case Nil
  then show ?case by simp
next
  case (Cons x cs)
  show ?case
  proof (cases x)
    case (Abort g)
    then show ?thesis using Cons.IH [of rd "abortWorkflow g w"] by (simp add: abortWorkflow_def)
  next
    case (RedirectTo r)
    then show ?thesis using Cons.IH [of "Some r" w] by simp
  next
    case (Interrupt v)
    then show ?thesis using Cons.IH [of rd w] by simp
  qed
qed

lemma invokeExecute_throws:
  assumes "settles (execute c k d (executionContext.truncate w)) = Throws err"
    and "\<not> overran (execute c k d (executionContext.truncate w))"
    and "\<forall>x. Interrupt x \<notin> set (calls (execute c k d (executionContext.truncate w)))"
  shows "\<exists>rd' w'. invokeExecute E t c k d rd w = (Throws err, rd', w') \<and>
           trace w' = trace w @ [ExecuteCalled t k d] \<and> runningTasks w' = runningTasks w"
proof (cases "hasTimeout c")
  case True
  obtain rd' w' where "timeoutCalls (calls (execute c k d (executionContext.truncate w))) rd
        (w\<lparr>trace := trace w @ [ExecuteCalled t k d]\<rparr>) = (rd', w')"
     "trace w' = trace (w\<lparr>trace := trace w @ [ExecuteCalled t k d]\<rparr>)"
     "runningTasks w' = runningTasks (w\<lparr>trace := trace w @ [ExecuteCalled t k d]\<rparr>)"
    using timeoutCalls_quiet by blast
  then show ?thesis using True assms by (simp add: invokeExecute_whole Let_def)
next
  case False
  obtain rd' w' where "directCalls E t (calls (execute c k d (executionContext.truncate w))) rd
        (w\<lparr>trace := trace w @ [ExecuteCalled t k d]\<rparr>) = (None, rd', w')"
     "trace w' = trace (w\<lparr>trace := trace w @ [ExecuteCalled t k d]\<rparr>)"
     "runningTasks w' = runningTasks (w\<lparr>trace := trace w @ [ExecuteCalled t k d]\<rparr>)"
    using directCalls_quiet [OF assms(3)] by blast
  then show ?thesis using False assms by (simp add: invokeExecute_whole Let_def)
qed

text \<open>
  Claim C8. A registered task with \<open>retryCount = 0\<close> and no \<open>onError\<close> handler, whose
  \<open>execute\<close> throws an error other than a \<open>BreakpointError\<close> on every invocation
  (without calling \<open>interrupt\<close> and before any timeout), and that \<open>executeTask\<close> does
  run (the workflow is not hard-aborted, the dependencies are complete, the task is not
  running): \<open>execute\<close> is invoked exactly once, which is all the engine does, and the
  error it threw is rethrown.
\<close>

theorem retryCount_zero_one_attempt:
  assumes reg: "tasks E t = Some c"
    and r0: "retryCount c = Some 0"
    and noh: "onError c = None"
    and run: "\<not> (aborted w \<and> \<not> gracefulShutdown w)" "dependenciesComplete c w" "t \<notin> runningTasks w"
    and throws: "\<forall>k d' ctx. (\<exists>m. settles (execute c k d' ctx) = Throws (Error m)) \<and>
                    \<not> overran (execute c k d' ctx) \<and>
                    (\<forall>x. Interrupt x \<notin> set (calls (execute c k d' ctx)))"
  shows "\<exists>m w'. executeTask (Suc (Suc (Suc fuel))) E t d w = Some (Inl (Error m), w') \<and>
           trace w' = trace w @ [ExecuteCalled t 0 d] \<and>
           settles (execute c 0 d (executionContext.truncate (enter t w))) = Throws (Error m)"
proof -
  let ?w0 = "enter t w"
  obtain m where m: "settles (execute c 0 d (executionContext.truncate ?w0)) = Throws (Error m)"
    using throws by blast
  obtain rd' w' where inv: "invokeExecute E t c 0 d None ?w0 = (Throws (Error m), rd', w')"
      "trace w' = trace ?w0 @ [ExecuteCalled t 0 d]"
    using invokeExecute_throws [OF m] throws by blast
  have lim: "retryLimit c = 0" using r0 by (simp add: retryLimit_def)
  have "attemptLoop (Suc (Suc fuel)) E t c d 0 (Fresh None) ?w0 = Some (Inl (Error m), w')"
    using inv(1) lim noh by (simp add: attemptOutcome_fresh)
  then show ?thesis
    using executeTask_enter [OF reg run, of "Suc (Suc fuel)" d] lim inv(2) m by auto
qed

theorem retryCount_zero_one_attempt_witness:
  "map_option (\<lambda>(r, w'). (r, trace w'))
     (executeTask (Suc (Suc (Suc 0))) engineF ''F'' JNull newWorld) =
   Some (Inl (Error ''boom''), [ExecuteCalled ''F'' 0 JNull])"
proof -
  have reg: "tasks engineF ''F'' = Some configF" by (simp add: engineF_def addTask_def)
  have r0: "retryCount configF = Some 0" and noh: "onError configF = None"
    by (simp_all add: configF_def plainTask_def)
  have run: "\<not> (aborted newWorld \<and> \<not> gracefulShutdown newWorld)"
      "dependenciesComplete configF newWorld" "''F'' \<notin> runningTasks newWorld"
    by (simp_all add: newWorld_def dependenciesComplete_def configF_def plainTask_def)
  have throws: "\<forall>k d' ctx. (\<exists>m. settles (execute configF k d' ctx) = Throws (Error m)) \<and>
                    \<not> overran (execute configF k d' ctx) \<and>
                    (\<forall>x. Interrupt x \<notin> set (calls (execute configF k d' ctx)))"
    by (simp add: configF_def plainTask_def boom_def)
  show ?thesis
    using retryCount_zero_one_attempt [OF reg r0 noh run throws, of 0 JNull]
    by (auto simp: newWorld_def configF_def plainTask_def boom_def)
qed

subsection \<open>The trace only grows\<close>

lemma markTaskComplete_grows: "prefix (trace w) (trace (markTaskComplete t v w))"
  by (simp add: markTaskComplete_def emitTaskExecutionEvent_def Let_def)

lemma saveWorkflow_grows: "prefix (trace w) (trace (saveWorkflow E w))"
  by (simp add: saveWorkflow_def)

lemma completeAttempt_grows: "prefix (trace w) (trace (completeAttempt E t v w))"
proof -
  have "prefix (trace (markTaskComplete t v w)) (trace (completeAttempt E t v w))"
    by (simp add: completeAttempt_def emitTaskExecutionEvent_def Let_def saveWorkflow_def)
  then show ?thesis using markTaskComplete_grows prefix_order.trans by blast
qed

lemma timeoutCalls_trace: "trace (snd (timeoutCalls cs rd w)) = trace w"
proof (induction cs arbitrary: rd w)
  case Nil
  then show ?case by simp
next
  case (Cons x cs)
  then show ?case by (cases x) (simp_all add: abortWorkflow_def)
qed

lemma directCalls_grows: "prefix (trace w) (trace (snd (snd (directCalls E t cs rd w))))"
proof (induction cs arbitrary: rd w)
  case Nil
  then show ?case by simp
next
  case (Cons x cs)
  show ?case
  proof (cases x)
    case (Abort g)
    then show ?thesis using Cons [where w = "abortWorkflow g w"] by (simp add: abortWorkflow_def)
  next
    case (RedirectTo r)
    then show ?thesis using Cons by simp
  next
    case (Interrupt v)
    have "prefix (trace (markTaskComplete t v w))
            (trace (snd (snd (directCalls E t (Interrupt v # cs) rd w))))"
      by (simp add: createBreakpoint_def saveWorkflow_def)
    then show ?thesis
      unfolding Interrupt using markTaskComplete_grows prefix_order.trans by blast
  qed
qed

lemma beginExecute_grows:
  "beginExecute E t c k d rd w = (p, w') \<Longrightarrow> prefix (trace w @ [ExecuteCalled t k d]) (trace w')"
proof -
  let ?b = "execute c k d (executionContext.truncate w)"
  let ?w0 = "w\<lparr>trace := trace w @ [ExecuteCalled t k d]\<rparr>"
  assume a: "beginExecute E t c k d rd w = (p, w')"
  show ?thesis
  proof (cases "hasTimeout c")
    case True
    then have "w' = snd (timeoutCalls (take (eager ?b) (calls ?b)) rd ?w0)"
      using a by (auto simp: beginExecute_def Let_def split: prod.splits)
    then show ?thesis by (simp add: timeoutCalls_trace)
  next
    case False
    then have "w' = snd (snd (directCalls E t (take (eager ?b) (calls ?b)) rd ?w0))"
      using a by (auto simp: beginExecute_def Let_def split: prod.splits)
    then show ?thesis
      using directCalls_grows [of ?w0 E t "take (eager ?b) (calls ?b)" rd] by simp
  qed
qed

lemma settleExecute_grows:
  "settleExecute E t c p w = (s, rd, w') \<Longrightarrow> prefix (trace w) (trace w')"
proof -
  let ?later = "drop (eager (invoked p)) (calls (invoked p))"
  assume a: "settleExecute E t c p w = (s, rd, w')"
  show ?thesis
  proof (cases "hasTimeout c")
    case True
    then have "w' = snd (timeoutCalls ?later (redirected p) w)"
      using a by (auto simp: settleExecute_def Let_def split: prod.splits)
    then show ?thesis by (simp add: timeoutCalls_trace)
  next
    case False
    show ?thesis
    proof (cases "thrown p")
      case None
      then have "w' = snd (snd (directCalls E t ?later (redirected p) w))"
        using a False by (auto simp: settleExecute_def Let_def split: prod.splits option.splits)
      then show ?thesis using directCalls_grows by simp
    next
      case (Some e)
      then show ?thesis using a False by (simp add: settleExecute_def Let_def)
    qed
  qed
qed

lemma invokeExecute_grows:
  assumes "invokeExecute E t c k d rd w = (s, rd', w')"
  shows "prefix (trace w @ [ExecuteCalled t k d]) (trace w')"
proof -
  obtain p w1 where b: "beginExecute E t c k d rd w = (p, w1)"
    by (cases "beginExecute E t c k d rd w")
  then have "settleExecute E t c p w1 = (s, rd', w')"
    using assms by (simp add: invokeExecute_def)
  then show ?thesis
    using beginExecute_grows [OF b] settleExecute_grows prefix_order.trans by blast
qed

lemma startTask_grows: "startTask E t d w = (s, w') \<Longrightarrow> prefix (trace w) (trace w')"
proof -
  assume a: "startTask E t d w = (s, w')"
  show ?thesis
  proof (cases "\<exists>c p. s = Started c p")
    case True
    then obtain c p where s: "s = Started c p" by blast
    then obtain w2 where "beginExecute E t c 0 d None w2 = (p, w')" "trace w2 = trace w"
      using a
      by (auto simp: startTask_def Let_def resetTaskCompletion_def
          split: if_splits option.splits prod.splits)
    then show ?thesis using beginExecute_grows [of E t c 0 d None w2 p w'] by (auto dest: append_prefixD)
  next
    case False
    then have "trace w' = trace w"
      using a
      by (auto simp: startTask_def Let_def resetTaskCompletion_def
          split: if_splits option.splits prod.splits)
    then show ?thesis by simp
  qed
qed

lemma startAll_grows: "startAll E ts w = (ss, w') \<Longrightarrow> prefix (trace w) (trace w')"
proof (induction ts arbitrary: w ss w')
  case Nil
  then show ?case by simp
next
  case (Cons x ts)
  obtain t d where x: "x = (t, d)" by (cases x)
  obtain s w1 where s: "startTask E t d w = (s, w1)" by (cases "startTask E t d w")
  obtain ss' w2 where r: "startAll E ts w1 = (ss', w2)" by (cases "startAll E ts w1")
  have "w' = w2" using Cons.prems x s r by simp
  then show ?case
    using startTask_grows [OF s] Cons.IH [OF r] prefix_order.trans by blast
qed

lemma finishAll_grows:
  assumes res: "\<forall>t c d p w r w'. resume t c d p w = Some (r, w') \<longrightarrow> prefix (trace w) (trace w')"
  shows "finishAll resume ss w = Some (es, w') \<Longrightarrow> prefix (trace w) (trace w')"
proof (induction ss arbitrary: w es w')
  case Nil
  then show ?case by simp
next
  case (Cons x ss)
  obtain t d s where x: "x = (t, d, s)" by (cases x)
  show ?case
  proof (cases s)
    case (Settled r)
    then show ?thesis using Cons x by simp
  next
    case (Started c p)
    then obtain r w1 es' where
      a: "resume t c d p w = Some (r, w1)" and b: "finishAll resume ss w1 = Some (es', w')"
      using Cons.prems x by (auto split: option.splits)
    show ?thesis using res a Cons.IH [OF b] prefix_order.trans by blast
  qed
qed

lemma executeAll_grows:
  assumes res: "\<forall>t c d p w r w'. resume t c d p w = Some (r, w') \<longrightarrow> prefix (trace w) (trace w')"
    and "executeAll resume E ts w = Some (e, w')"
  shows "prefix (trace w) (trace w')"
proof -
  obtain ss w1 where s: "startAll E ts w = (ss, w1)" by (cases "startAll E ts w")
  then obtain es where f: "finishAll resume ss w1 = Some (es, w')"
    using assms(2) by (auto simp: executeAll_def split: option.splits)
  show ?thesis
    using startAll_grows [OF s] finishAll_grows [OF res f] prefix_order.trans by blast
qed

lemma attemptOutcome_grows:
  assumes "attemptOutcome E t c d k src w = Some (s, rd, w1)"
  shows "prefix (trace w) (trace w1)"
proof (cases src)
  case (Fresh r)
  then have "invokeExecute E t c k d r w = (s, rd, w1)"
    using assms by (simp add: attemptOutcome_def split: if_splits)
  then show ?thesis using invokeExecute_grows by (blast dest: append_prefixD)
next
  case (Begun p)
  then show ?thesis using assms settleExecute_grows by (simp add: attemptOutcome_def)
qed

lemma prefix_trans3: "prefix a b \<Longrightarrow> prefix b c \<Longrightarrow> prefix a c"
  by (rule prefix_order.trans)

lemma loop_grows:
  "(\<forall>t c d k src w res w'.
      attemptLoop fuel E t c d k src w = Some (res, w') \<longrightarrow> prefix (trace w) (trace w')) \<and>
   (\<forall>t c d k rd e w res w'.
      catchBlock fuel E t c d k rd e w = Some (res, w') \<longrightarrow> prefix (trace w) (trace w'))"
proof (induction fuel)
  case 0
  then show ?case by simp
next
  case (Suc fuel)
  then have IHa: "\<And>t c d k src w res w'.
      attemptLoop fuel E t c d k src w = Some (res, w') \<Longrightarrow> prefix (trace w) (trace w')"
    and IHc: "\<And>t c d k rd e w res w'.
      catchBlock fuel E t c d k rd e w = Some (res, w') \<Longrightarrow> prefix (trace w) (trace w')"
    by blast+
  have resume: "\<forall>t c d p w r w'.
      (\<lambda>t' c' d' p'. attemptLoop fuel E t' c' d' 0 (Begun p')) t c d p w = Some (r, w') \<longrightarrow>
      prefix (trace w) (trace w')"
    using IHa by blast
  note all = executeAll_grows [OF resume]
  have A: "prefix (trace w) (trace w')"
    if a: "attemptLoop (Suc fuel) E t c d k src w = Some (res, w')" for t c d k src w res w'
  proof (cases "attemptOutcome E t c d k src w")
    case None
    then show ?thesis using a by simp
  next
    case (Some o1)
    obtain s rd w1 where o1: "o1 = (s, rd, w1)" by (cases o1)
    have g1: "prefix (trace w) (trace w1)"
      using attemptOutcome_grows Some o1 by blast
    show ?thesis
    proof (cases s)
      case (Throws e)
      then have "catchBlock fuel E t c d k rd e w1 = Some (res, w')"
        using a Some o1 by simp
      then show ?thesis using IHc g1 prefix_trans3 by blast
    next
      case (Returns tr)
      let ?w4 = "completeAttempt E t (resultOf tr) w1"
      let ?nt = "resolveNext rd (directNextOf tr)
                   (route c (resultOf tr) (executionContext.truncate ?w4))"
      have g4: "prefix (trace w) (trace ?w4)"
        using g1 completeAttempt_grows prefix_trans3 by blast
      show ?thesis
      proof (cases "aborted ?w4 \<and> \<not> gracefulShutdown ?w4")
        case True
        then have "w' = ?w4" using a Some o1 Returns by (simp add: Let_def)
        then show ?thesis using g4 by simp
      next
        case False
        then have na: "(aborted ?w4 \<and> \<not> gracefulShutdown ?w4) = False" by simp
        show ?thesis
        proof (cases "?nt = Some (Single ''end'')")
          case True
          then have "w' = saveWorkflow E ?w4"
            using a Some o1 Returns by (simp add: Let_def na)
          then show ?thesis using g4 saveWorkflow_grows prefix_trans3 by blast
        next
          case ne: False
          let ?all = "executeAll (\<lambda>t' c' d' p'. attemptLoop fuel E t' c' d' 0 (Begun p')) E
                        (targets ?nt (resultOf tr)) ?w4"
          have eq: "attemptLoop (Suc fuel) E t c d k src w =
                  (case ?all of
                     None \<Rightarrow> None
                   | Some (Some e, w5) \<Rightarrow> catchBlock fuel E t c d k rd e w5
                   | Some (None, w5) \<Rightarrow> Some (Inr (resultOf tr), saveWorkflow E w5))"
            using Some o1 Returns ne by (simp add: Let_def na)
          then obtain eo w5 where al: "?all = Some (eo, w5)"
            using a by (cases ?all) auto
          have g5: "prefix (trace w) (trace w5)"
            using all [OF al] g4 prefix_trans3 by blast
          show ?thesis
          proof (cases eo)
            case None
            then have "w' = saveWorkflow E w5" using a eq al by simp
            then show ?thesis using g5 saveWorkflow_grows prefix_trans3 by blast
          next
            case (Some e)
            then have "catchBlock fuel E t c d k rd e w5 = Some (res, w')"
              using a eq al by simp
            then show ?thesis using IHc g5 prefix_trans3 by blast
          qed
        qed
      qed
    qed
  qed
  have C: "prefix (trace w) (trace w')"
    if a: "catchBlock (Suc fuel) E t c d k rd e w = Some (res, w')" for t c d k rd e w res w'
  proof (cases e)
    case (BreakpointError m)
    then show ?thesis using a by simp
  next
    case (Error m)
    show ?thesis
    proof (cases "onError c")
      case None
      then show ?thesis
        using a Error IHa [of t c d "Suc k" "Fresh rd" w res w']
        by (simp split: if_splits)
    next
      case (Some h)
      let ?w1 = "w\<lparr>trace := trace w @ [OnErrorCalled t (Error m)]\<rparr>"
      have g1: "prefix (trace w) (trace ?w1)" by simp
      have retry: "prefix (trace w) (trace w')"
        if "(if int (Suc k) > retryLimit c then Some (Inl (Error m), v)
             else attemptLoop fuel E t c d (Suc k) (Fresh rd) v) = Some (res, w')"
           "prefix (trace w) (trace v)" for v
        using that IHa [of t c d "Suc k" "Fresh rd" v res w'] prefix_trans3
        by (auto split: if_splits)
      show ?thesis
      proof (cases "h (Error m) d (executionContext.truncate w)")
        case (Inl he)
        then show ?thesis
          using a Error Some retry [of ?w1] by (simp add: Let_def)
      next
        case (Inr er)
        show ?thesis
        proof (cases "retry er \<and> int (Suc k) \<le> retryLimit c")
          case True
          then have "attemptLoop fuel E t c d (Suc k) (Fresh rd) ?w1 = Some (res, w')"
            using a Error Some Inr by (simp add: Let_def)
          then show ?thesis using IHa g1 prefix_trans3 by blast
        next
          case nr: False
          then have nr': "(retry er \<and> int (Suc k) \<le> retryLimit c) = False"
            "(retry er \<and> 1 + int k \<le> retryLimit c) = False" by simp_all
          show ?thesis
          proof (cases "result er \<noteq> JUndef")
            case False
            then show ?thesis
              using a Error Some Inr retry [of ?w1] by (simp add: Let_def nr')
          next
            case True
            let ?w2 = "saveWorkflow E (markTaskComplete t (result er) ?w1)"
            let ?all = "executeAll (\<lambda>t' c' d' p'. attemptLoop fuel E t' c' d' 0 (Begun p')) E
                          (targets (next er) (result er)) ?w2"
            have g2: "prefix (trace w) (trace ?w2)"
              using g1 markTaskComplete_grows saveWorkflow_grows prefix_trans3 by blast
            have eq: "catchBlock (Suc fuel) E t c d k rd e w =
                  (case ?all of
                     None \<Rightarrow> None
                   | Some (Some e2, w3) \<Rightarrow>
                       if int (Suc k) > retryLimit c then Some (Inl (Error m), w3)
                       else attemptLoop fuel E t c d (Suc k) (Fresh rd) w3
                   | Some (None, w3) \<Rightarrow> Some (Inr (result er), w3))"
              using Error Some Inr True by (simp add: Let_def nr')
            then obtain eo w3 where al: "?all = Some (eo, w3)"
              using a by (cases ?all) auto
            have g3: "prefix (trace w) (trace w3)"
              using all [OF al] g2 prefix_trans3 by blast
            show ?thesis
            proof (cases eo)
              case None
              then have "w' = w3" using a eq al by simp
              then show ?thesis using g3 by simp
            next
              case (Some e2)
              then show ?thesis using a eq al retry [of w3] g3 by simp
            qed
          qed
        qed
      qed
    qed
  qed
  show ?case using A C by blast
qed

lemma attemptLoop_grows:
  "attemptLoop fuel E t c d k src w = Some (res, w') \<Longrightarrow> prefix (trace w) (trace w')"
  using loop_grows by blast

lemma catchBlock_grows:
  "catchBlock fuel E t c d k rd e w = Some (res, w') \<Longrightarrow> prefix (trace w) (trace w')"
  using loop_grows by blast

subsection \<open>The \<open>catch\<close> clause and \<open>onError\<close>\<close>

lemma catchBlock_calls_handler:
  assumes h: "onError c = Some h"
    and a: "catchBlock fuel E t c d k rd (Error m) w = Some (res, w')"
  shows "prefix (trace w @ [OnErrorCalled t (Error m)]) (trace w')"
proof -
  obtain f where f: "fuel = Suc f" using a by (cases fuel) auto
  let ?w1 = "w\<lparr>trace := trace w @ [OnErrorCalled t (Error m)]\<rparr>"
  have resume: "\<forall>t c d p w r w'.
      (\<lambda>t' c' d' p'. attemptLoop f E t' c' d' 0 (Begun p')) t c d p w = Some (r, w') \<longrightarrow>
      prefix (trace w) (trace w')"
    using attemptLoop_grows by blast
  note all = executeAll_grows [OF resume]
  have retry: "prefix (trace ?w1) (trace w')"
    if "(if int (Suc k) > retryLimit c then Some (Inl (Error m), v)
         else attemptLoop f E t c d (Suc k) (Fresh rd) v) = Some (res, w')"
       "prefix (trace ?w1) (trace v)" for v
    using that attemptLoop_grows [of f E t c d "Suc k" "Fresh rd" v res w'] prefix_trans3
    by (auto split: if_splits)
  have "prefix (trace ?w1) (trace w')"
  proof (cases "h (Error m) d (executionContext.truncate w)")
    case (Inl he)
    then show ?thesis
      using a h retry [of ?w1] unfolding f by (simp add: Let_def)
  next
    case (Inr er)
    show ?thesis
    proof (cases "retry er \<and> int (Suc k) \<le> retryLimit c")
      case True
      then have "attemptLoop f E t c d (Suc k) (Fresh rd) ?w1 = Some (res, w')"
        using a h Inr unfolding f by (simp add: Let_def)
      then show ?thesis using attemptLoop_grows by blast
    next
      case nr: False
      then have nr': "(retry er \<and> int (Suc k) \<le> retryLimit c) = False"
        "(retry er \<and> 1 + int k \<le> retryLimit c) = False" by simp_all
      show ?thesis
      proof (cases "result er \<noteq> JUndef")
        case False
        then show ?thesis
          using a h Inr retry [of ?w1] unfolding f by (simp add: Let_def nr')
      next
        case True
        let ?w2 = "saveWorkflow E (markTaskComplete t (result er) ?w1)"
        let ?all = "executeAll (\<lambda>t' c' d' p'. attemptLoop f E t' c' d' 0 (Begun p')) E
                      (targets (next er) (result er)) ?w2"
        have g2: "prefix (trace ?w1) (trace ?w2)"
          using markTaskComplete_grows saveWorkflow_grows prefix_trans3 by blast
        have eq: "catchBlock (Suc f) E t c d k rd (Error m) w =
              (case ?all of
                 None \<Rightarrow> None
               | Some (Some e2, w3) \<Rightarrow>
                   if int (Suc k) > retryLimit c then Some (Inl (Error m), w3)
                   else attemptLoop f E t c d (Suc k) (Fresh rd) w3
               | Some (None, w3) \<Rightarrow> Some (Inr (result er), w3))"
          using h Inr True by (simp add: Let_def nr')
        then obtain eo w3 where al: "?all = Some (eo, w3)"
          using a unfolding f by (cases ?all) auto
        have g3: "prefix (trace ?w1) (trace w3)"
          using all [OF al] g2 prefix_trans3 by blast
        show ?thesis
        proof (cases eo)
          case None
          then have "w' = w3" using a eq al unfolding f by simp
          then show ?thesis using g3 by simp
        next
          case (Some e2)
          then show ?thesis using a eq al retry [of w3] g3 unfolding f by simp
        qed
      qed
    qed
  qed
  then show ?thesis by simp
qed

lemma failed_attempt_then_handler:
  assumes h: "onError c = Some h"
    and lim: "int k \<le> retryLimit c"
    and throws: "settles (execute c k d (executionContext.truncate v)) = Throws (Error m)"
      "\<not> overran (execute c k d (executionContext.truncate v))"
      "\<forall>x. Interrupt x \<notin> set (calls (execute c k d (executionContext.truncate v)))"
    and a: "attemptLoop fuel E t c d k (Fresh rd) v = Some (res, v')"
  shows "prefix (trace v @ [ExecuteCalled t k d, OnErrorCalled t (Error m)]) (trace v')"
proof -
  obtain f where f: "fuel = Suc f" using a by (cases fuel) auto
  obtain rd' v1 where inv: "invokeExecute E t c k d rd v = (Throws (Error m), rd', v1)"
      "trace v1 = trace v @ [ExecuteCalled t k d]"
    using invokeExecute_throws [OF throws] by blast
  have "catchBlock f E t c d k rd' (Error m) v1 = Some (res, v')"
    using a inv(1) lim unfolding f by (simp add: attemptOutcome_fresh)
  then show ?thesis
    using catchBlock_calls_handler [OF h] inv(2) by fastforce
qed

lemma catchBlock_no_result:
  assumes h: "onError c = Some h"
    and nores: "\<forall>e d' ctx. (\<exists>e'. h e d' ctx = Inl e') \<or>
                  (\<exists>er. h e d' ctx = Inr er \<and> result er = JUndef)"
  shows "catchBlock (Suc fuel) E t c d k rd (Error m) w =
           (if int (Suc k) > retryLimit c
            then Some (Inl (Error m), w\<lparr>trace := trace w @ [OnErrorCalled t (Error m)]\<rparr>)
            else attemptLoop fuel E t c d (Suc k) (Fresh rd)
                   (w\<lparr>trace := trace w @ [OnErrorCalled t (Error m)]\<rparr>))"
proof -
  consider e' where "h (Error m) d (executionContext.truncate w) = Inl e'"
    | er where "h (Error m) d (executionContext.truncate w) = Inr er" "result er = JUndef"
    using nores by blast
  then show ?thesis
  proof cases
    case 1
    then show ?thesis using h by (simp add: Let_def)
  next
    case 2
    then show ?thesis using h by (simp add: Let_def)
  qed
qed

lemma attempts_until_exhausted:
  assumes h: "onError c = Some h"
    and nores: "\<forall>e d' ctx. (\<exists>e'. h e d' ctx = Inl e') \<or>
                  (\<exists>er. h e d' ctx = Inr er \<and> result er = JUndef)"
    and lim: "retryLimit c = int r"
    and throws: "\<forall>k ctx. settles (execute c k d ctx) = Throws (Error (m k)) \<and>
                    \<not> overran (execute c k d ctx) \<and>
                    (\<forall>x. Interrupt x \<notin> set (calls (execute c k d ctx)))"
  shows "n = r - k \<Longrightarrow> k \<le> r \<Longrightarrow> 2 * Suc n \<le> fuel \<Longrightarrow>
         \<exists>w'. attemptLoop fuel E t c d k (Fresh rd) w = Some (Inl (Error (m r)), w') \<and>
              trace w' = trace w @
                concat (map (\<lambda>j. [ExecuteCalled t j d, OnErrorCalled t (Error (m j))]) [k ..< Suc r])"
proof (induction n arbitrary: k rd w fuel)
  case 0
  then have kr: "k = r" by simp
  obtain f where f: "fuel = Suc (Suc f)" using 0(3) by (cases fuel; cases "fuel - 1") auto
  obtain rd' w1 where inv: "invokeExecute E t c k d rd w = (Throws (Error (m k)), rd', w1)"
      "trace w1 = trace w @ [ExecuteCalled t k d]"
    using invokeExecute_throws [of c k d w "Error (m k)" E t rd] throws by blast
  have "attemptLoop fuel E t c d k (Fresh rd) w =
          Some (Inl (Error (m k)), w1\<lparr>trace := trace w1 @ [OnErrorCalled t (Error (m k))]\<rparr>)"
    unfolding f using inv(1) lim kr catchBlock_no_result [OF h nores, of f E t d k rd' "m k" w1]
    by (simp add: attemptOutcome_fresh)
  then show ?case using inv(2) kr by simp
next
  case (Suc n)
  then have kr: "k < r" "n = r - Suc k" "Suc k \<le> r" by simp_all
  obtain f where f: "fuel = Suc (Suc f)" "2 * Suc n \<le> f"
    using Suc.prems(3) by (cases fuel; cases "fuel - 1") auto
  obtain rd' w1 where inv: "invokeExecute E t c k d rd w = (Throws (Error (m k)), rd', w1)"
      "trace w1 = trace w @ [ExecuteCalled t k d]"
    using invokeExecute_throws [of c k d w "Error (m k)" E t rd] throws by blast
  let ?w2 = "w1\<lparr>trace := trace w1 @ [OnErrorCalled t (Error (m k))]\<rparr>"
  have step: "attemptLoop fuel E t c d k (Fresh rd) w = attemptLoop f E t c d (Suc k) (Fresh rd') ?w2"
    unfolding f using inv(1) lim kr catchBlock_no_result [OF h nores, of f E t d k rd' "m k" w1]
    by (simp add: attemptOutcome_fresh)
  obtain w' where w': "attemptLoop f E t c d (Suc k) (Fresh rd') ?w2 = Some (Inl (Error (m r)), w')"
      "trace w' = trace ?w2 @
         concat (map (\<lambda>j. [ExecuteCalled t j d, OnErrorCalled t (Error (m j))]) [Suc k ..< Suc r])"
    using Suc.IH [OF kr(2) kr(3) f(2), of rd' ?w2] by blast
  have "[k ..< Suc r] = k # [Suc k ..< Suc r]"
    using kr(1) by (simp add: upt_conv_Cons)
  then show ?case using step w' inv(2) by simp
qed

lemma recovery_trace:
  "\<exists>rest. trace (saveWorkflow E (markTaskComplete t v w)) = trace w @ rest \<and>
          (\<forall>k d'. ExecuteCalled t' k d' \<notin> set rest)"
  by (auto simp: saveWorkflow_def markTaskComplete_def emitTaskExecutionEvent_def Let_def)

lemma recovered_without_successor:
  assumes h: "onError c = Some h"
    and lim: "0 \<le> retryLimit c"
    and throws: "settles (execute c 0 d (executionContext.truncate v)) = Throws (Error m)"
      "\<not> overran (execute c 0 d (executionContext.truncate v))"
      "\<forall>x. Interrupt x \<notin> set (calls (execute c 0 d (executionContext.truncate v)))"
    and er: "\<forall>ctx. h (Error m) d ctx = Inr er" "\<not> retry er" "result er \<noteq> JUndef" "next er = None"
  shows "\<exists>v' rest. attemptLoop (Suc (Suc fuel)) E t c d 0 (Fresh rd) v = Some (Inr (result er), v') \<and>
           trace v' = trace v @ ExecuteCalled t 0 d # OnErrorCalled t (Error m) # rest \<and>
           (\<forall>k d'. ExecuteCalled t k d' \<notin> set rest)"
proof -
  obtain rd' v1 where inv: "invokeExecute E t c 0 d rd v = (Throws (Error m), rd', v1)"
      "trace v1 = trace v @ [ExecuteCalled t 0 d]"
    using invokeExecute_throws [OF throws] by blast
  let ?w1 = "v1\<lparr>trace := trace v1 @ [OnErrorCalled t (Error m)]\<rparr>"
  let ?w2 = "saveWorkflow E (markTaskComplete t (result er) ?w1)"
  have "catchBlock (Suc fuel) E t c d 0 rd' (Error m) v1 = Some (Inr (result er), ?w2)"
    using h er by (simp add: Let_def executeAll_def)
  then have run: "attemptLoop (Suc (Suc fuel)) E t c d 0 (Fresh rd) v = Some (Inr (result er), ?w2)"
    using inv(1) lim by (simp add: attemptOutcome_fresh)
  obtain rest where "trace ?w2 = trace ?w1 @ rest" "\<forall>k d'. ExecuteCalled t k d' \<notin> set rest"
    using recovery_trace [of E t "result er" ?w1 t] by blast
  then show ?thesis using run inv(2) by simp
qed

text \<open>
  Claim C4, as the code has it. For a task with an \<open>onError\<close> handler whose \<open>execute\<close>
  throws an error other than a \<open>BreakpointError\<close> on every attempt, the error of a
  failed attempt is handed to the handler right after that attempt, whatever the handler
  does and also while retry attempts remain: this holds for every attempt the loop makes,
  and so for the first attempt of every run. When the handler throws or supplies no
  result, \<open>execute\<close> is attempted \<open>retryCount + 1\<close> times in all, each attempt followed
  by the handler, and the error of the last attempt is rethrown after the handler's call
  for it. When the handler supplies a result, without asking for a retry and naming no
  successor, the first failure ends the run: the result is returned and no retry is made,
  however many remain.
\<close>

theorem onError_after_every_failed_attempt:
  assumes reg: "tasks E t = Some c"
    and run: "\<not> (aborted w \<and> \<not> gracefulShutdown w)" "dependenciesComplete c w" "t \<notin> runningTasks w"
    and rc: "retryCount c = Some (int r)"
    and h: "onError c = Some h"
    and throws: "\<forall>k ctx. settles (execute c k d ctx) = Throws (Error (m k)) \<and>
                    \<not> overran (execute c k d ctx) \<and>
                    (\<forall>x. Interrupt x \<notin> set (calls (execute c k d ctx)))"
  shows "(\<forall>fuel k rd v res v'.
            k \<le> r \<and> attemptLoop fuel E t c d k (Fresh rd) v = Some (res, v') \<longrightarrow>
            prefix (trace v @ [ExecuteCalled t k d, OnErrorCalled t (Error (m k))]) (trace v')) \<and>
         (\<forall>fuel res w'.
            executeTask fuel E t d w = Some (res, w') \<longrightarrow>
            prefix (trace w @ [ExecuteCalled t 0 d, OnErrorCalled t (Error (m 0))]) (trace w')) \<and>
         ((\<forall>e d' ctx. (\<exists>e'. h e d' ctx = Inl e') \<or>
                      (\<exists>er. h e d' ctx = Inr er \<and> result er = JUndef)) \<longrightarrow>
          (\<forall>fuel. \<exists>w'. executeTask (Suc (2 * Suc r + fuel)) E t d w = Some (Inl (Error (m r)), w') \<and>
             trace w' = trace w @
               concat (map (\<lambda>j. [ExecuteCalled t j d, OnErrorCalled t (Error (m j))]) [0 ..< Suc r]))) \<and>
         (\<forall>er. (\<forall>ctx. h (Error (m 0)) d ctx = Inr er) \<and> \<not> retry er \<and> result er \<noteq> JUndef \<and>
               next er = None \<longrightarrow>
          (\<forall>fuel. \<exists>w' rest. executeTask (Suc (Suc (Suc fuel))) E t d w = Some (Inr (result er), w') \<and>
             trace w' = trace w @ ExecuteCalled t 0 d # OnErrorCalled t (Error (m 0)) # rest \<and>
             (\<forall>k d'. ExecuteCalled t k d' \<notin> set rest)))"
proof -
  have lim: "retryLimit c = int r" using rc by (simp add: retryLimit_def)
  then have nonneg: "0 \<le> retryLimit c" by simp
  note enter = executeTask_enter [OF reg run nonneg]
  have every: "\<forall>fuel k rd v res v'.
            k \<le> r \<and> attemptLoop fuel E t c d k (Fresh rd) v = Some (res, v') \<longrightarrow>
            prefix (trace v @ [ExecuteCalled t k d, OnErrorCalled t (Error (m k))]) (trace v')"
  proof (intro allI impI)
    fix fuel k rd v res v'
    assume a: "k \<le> r \<and> attemptLoop fuel E t c d k (Fresh rd) v = Some (res, v')"
    then have "int k \<le> retryLimit c" using lim by simp
    then show "prefix (trace v @ [ExecuteCalled t k d, OnErrorCalled t (Error (m k))]) (trace v')"
      using failed_attempt_then_handler [OF h _ _ _ _ conjunct2 [OF a]] throws by blast
  qed
  have first: "\<forall>fuel res w'.
            executeTask fuel E t d w = Some (res, w') \<longrightarrow>
            prefix (trace w @ [ExecuteCalled t 0 d, OnErrorCalled t (Error (m 0))]) (trace w')"
  proof (intro allI impI)
    fix fuel res w'
    assume a: "executeTask fuel E t d w = Some (res, w')"
    then obtain f where f: "fuel = Suc f" by (cases fuel) auto
    have "attemptLoop f E t c d 0 (Fresh None) (enter t w) = Some (res, w')"
      using a enter [of f d] unfolding f by simp
    then have "prefix (trace (enter t w) @ [ExecuteCalled t 0 d, OnErrorCalled t (Error (m 0))])
                 (trace w')"
      using every by blast
    then show "prefix (trace w @ [ExecuteCalled t 0 d, OnErrorCalled t (Error (m 0))]) (trace w')"
      by simp
  qed
  have exhausted: "(\<forall>e d' ctx. (\<exists>e'. h e d' ctx = Inl e') \<or>
                      (\<exists>er. h e d' ctx = Inr er \<and> result er = JUndef)) \<longrightarrow>
          (\<forall>fuel. \<exists>w'. executeTask (Suc (2 * Suc r + fuel)) E t d w = Some (Inl (Error (m r)), w') \<and>
             trace w' = trace w @
               concat (map (\<lambda>j. [ExecuteCalled t j d, OnErrorCalled t (Error (m j))]) [0 ..< Suc r]))"
  proof (intro allI impI)
    fix fuel
    assume nores: "\<forall>e d' ctx. (\<exists>e'. h e d' ctx = Inl e') \<or>
                      (\<exists>er. h e d' ctx = Inr er \<and> result er = JUndef)"
    have "\<exists>w'. attemptLoop (2 * Suc r + fuel) E t c d 0 (Fresh None) (enter t w) =
                 Some (Inl (Error (m r)), w') \<and>
              trace w' = trace (enter t w) @
                concat (map (\<lambda>j. [ExecuteCalled t j d, OnErrorCalled t (Error (m j))]) [0 ..< Suc r])"
      by (rule attempts_until_exhausted [OF h nores lim throws, of r 0]) simp_all
    then show "\<exists>w'. executeTask (Suc (2 * Suc r + fuel)) E t d w = Some (Inl (Error (m r)), w') \<and>
             trace w' = trace w @
               concat (map (\<lambda>j. [ExecuteCalled t j d, OnErrorCalled t (Error (m j))]) [0 ..< Suc r])"
      using enter [of "2 * Suc r + fuel" d] by simp
  qed
  have recovered: "\<forall>er. (\<forall>ctx. h (Error (m 0)) d ctx = Inr er) \<and> \<not> retry er \<and> result er \<noteq> JUndef \<and>
               next er = None \<longrightarrow>
          (\<forall>fuel. \<exists>w' rest. executeTask (Suc (Suc (Suc fuel))) E t d w = Some (Inr (result er), w') \<and>
             trace w' = trace w @ ExecuteCalled t 0 d # OnErrorCalled t (Error (m 0)) # rest \<and>
             (\<forall>k d'. ExecuteCalled t k d' \<notin> set rest))"
  proof (intro allI impI)
    fix er fuel
    assume er: "(\<forall>ctx. h (Error (m 0)) d ctx = Inr er) \<and> \<not> retry er \<and> result er \<noteq> JUndef \<and>
               next er = None"
    have "\<exists>v' rest. attemptLoop (Suc (Suc fuel)) E t c d 0 (Fresh None) (enter t w) =
                      Some (Inr (result er), v') \<and>
           trace v' = trace (enter t w) @ ExecuteCalled t 0 d # OnErrorCalled t (Error (m 0)) # rest \<and>
           (\<forall>k d'. ExecuteCalled t k d' \<notin> set rest)"
    proof -
      let ?b = "execute c 0 d (executionContext.truncate (enter t w))"
      have t1: "settles ?b = Throws (Error (m 0))" and t2: "\<not> overran ?b"
        and t3: "\<forall>x. Interrupt x \<notin> set (calls ?b)"
        using throws by simp_all
      have e1: "\<forall>ctx. h (Error (m 0)) d ctx = Inr er" and e2: "\<not> retry er"
        and e3: "result er \<noteq> JUndef" and e4: "next er = None"
        using er by simp_all
      show ?thesis
        by (rule recovered_without_successor [OF h nonneg t1 t2 t3 e1 e2 e3 e4])
    qed
    then show "\<exists>w' rest. executeTask (Suc (Suc (Suc fuel))) E t d w = Some (Inr (result er), w') \<and>
             trace w' = trace w @ ExecuteCalled t 0 d # OnErrorCalled t (Error (m 0)) # rest \<and>
             (\<forall>k d'. ExecuteCalled t k d' \<notin> set rest)"
      using enter [of "Suc (Suc fuel)" d] by simp
  qed
  show ?thesis using every first exhausted recovered by blast
qed

theorem onError_after_every_failed_attempt_witness:
  "map_option (\<lambda>(r, w'). (r, trace w'))
     (executeTask (Suc (2 * Suc 1 + 0)) engineR ''F'' JNull newWorld) =
     Some (Inl (Error ''boom''),
       [ExecuteCalled ''F'' 0 JNull, OnErrorCalled ''F'' (Error ''boom''),
        ExecuteCalled ''F'' 1 JNull, OnErrorCalled ''F'' (Error ''boom'')]) \<and>
   map_option (\<lambda>(r, w'). (r, trace w'))
     (executeTask (Suc (2 * Suc 1 + 0)) engineW ''F'' JNull newWorld) =
     Some (Inl (Error ''boom''),
       [ExecuteCalled ''F'' 0 JNull, OnErrorCalled ''F'' (Error ''boom''),
        ExecuteCalled ''F'' 1 JNull, OnErrorCalled ''F'' (Error ''boom'')]) \<and>
   map_option (\<lambda>(r, w'). (r, trace w'))
     (executeTask (Suc (Suc (Suc 0))) engineV ''F'' JNull newWorld) =
     Some (Inr (JStr ''r''),
       [ExecuteCalled ''F'' 0 JNull, OnErrorCalled ''F'' (Error ''boom''),
        TaskExecution ''F'' 1])"
proof -
  have run: "\<not> (aborted newWorld \<and> \<not> gracefulShutdown newWorld)" "''F'' \<notin> runningTasks newWorld"
    by (simp_all add: newWorld_def)
  have up: "[0 ..< Suc 1] = [0, 1]" by (simp add: upt_rec)
  have regR: "tasks engineR ''F'' = Some configR" by (simp add: engineR_def addTask_def)
  have depR: "dependenciesComplete configR newWorld"
    by (simp add: dependenciesComplete_def configR_def plainTask_def)
  have rcR: "retryCount configR = Some (int 1)" by (simp add: configR_def)
  have hR: "onError configR = Some (\<lambda>e d ctx. Inr \<lparr>retry = False, result = JUndef, next = None\<rparr>)"
    by (simp add: configR_def)
  have throwsR: "\<forall>k ctx. settles (execute configR k JNull ctx) = Throws (Error ''boom'') \<and>
                    \<not> overran (execute configR k JNull ctx) \<and>
                    (\<forall>x. Interrupt x \<notin> set (calls (execute configR k JNull ctx)))"
    by (simp add: configR_def plainTask_def boom_def)
  have regW: "tasks engineW ''F'' = Some configW" by (simp add: engineW_def addTask_def)
  have depW: "dependenciesComplete configW newWorld"
    by (simp add: dependenciesComplete_def configW_def plainTask_def)
  have rcW: "retryCount configW = Some (int 1)" by (simp add: configW_def)
  have hW: "onError configW = Some (\<lambda>e d ctx. Inl (Error ''handler failed''))"
    by (simp add: configW_def)
  have throwsW: "\<forall>k ctx. settles (execute configW k JNull ctx) = Throws (Error ''boom'') \<and>
                    \<not> overran (execute configW k JNull ctx) \<and>
                    (\<forall>x. Interrupt x \<notin> set (calls (execute configW k JNull ctx)))"
    by (simp add: configW_def plainTask_def boom_def)
  have regV: "tasks engineV ''F'' = Some configV" by (simp add: engineV_def addTask_def)
  have depV: "dependenciesComplete configV newWorld"
    by (simp add: dependenciesComplete_def configV_def plainTask_def)
  have rcV: "retryCount configV = Some (int 1)" by (simp add: configV_def)
  have hV: "onError configV =
              Some (\<lambda>e d ctx. Inr \<lparr>retry = False, result = JStr ''r'', next = None\<rparr>)"
    by (simp add: configV_def)
  have throwsV: "\<forall>k ctx. settles (execute configV k JNull ctx) = Throws (Error ''boom'') \<and>
                    \<not> overran (execute configV k JNull ctx) \<and>
                    (\<forall>x. Interrupt x \<notin> set (calls (execute configV k JNull ctx)))"
    by (simp add: configV_def plainTask_def boom_def)
  have valV: "executeTask (Suc (Suc (Suc 0))) engineV ''F'' JNull newWorld =
      Some (Inr (JStr ''r''),
        newWorld\<lparr>taskExecutionCounts := [''F'' \<mapsto> 1],
          trace := [ExecuteCalled ''F'' 0 JNull, OnErrorCalled ''F'' (Error ''boom''),
                    TaskExecution ''F'' 1],
          completedTasks := {''F''}, runningTasks := {}, taskData := [''F'' \<mapsto> JStr ''r'']\<rparr>)"
    by (simp add: ex_defs run_defs Let_def)
  note R = onError_after_every_failed_attempt
             [OF regR run(1) depR run(2) rcR hR, where m = "\<lambda>k. ''boom''" and d = JNull, OF throwsR]
  note W = onError_after_every_failed_attempt
             [OF regW run(1) depW run(2) rcW hW, where m = "\<lambda>k. ''boom''" and d = JNull, OF throwsW]
  note V = onError_after_every_failed_attempt
             [OF regV run(1) depV run(2) rcV hV, where m = "\<lambda>k. ''boom''" and d = JNull, OF throwsV]
  have r: "map_option (\<lambda>(r, w'). (r, trace w'))
     (executeTask (Suc (2 * Suc 1 + 0)) engineR ''F'' JNull newWorld) =
     Some (Inl (Error ''boom''),
       [ExecuteCalled ''F'' 0 JNull, OnErrorCalled ''F'' (Error ''boom''),
        ExecuteCalled ''F'' 1 JNull, OnErrorCalled ''F'' (Error ''boom'')])"
  proof -
    have "\<forall>fuel. \<exists>w'. executeTask (Suc (2 * Suc 1 + fuel)) engineR ''F'' JNull newWorld =
              Some (Inl (Error ''boom''), w') \<and>
            trace w' = trace newWorld @
              concat (map (\<lambda>j. [ExecuteCalled ''F'' j JNull, OnErrorCalled ''F'' (Error ''boom'')])
                        [0 ..< Suc 1])"
      using R by simp
    then obtain w' where "executeTask (Suc (2 * Suc 1 + 0)) engineR ''F'' JNull newWorld =
              Some (Inl (Error ''boom''), w')"
        "trace w' = trace newWorld @
              concat (map (\<lambda>j. [ExecuteCalled ''F'' j JNull, OnErrorCalled ''F'' (Error ''boom'')])
                        [0 ..< Suc 1])"
      by blast
    then show ?thesis by (simp add: up newWorld_def)
  qed
  have w: "map_option (\<lambda>(r, w'). (r, trace w'))
     (executeTask (Suc (2 * Suc 1 + 0)) engineW ''F'' JNull newWorld) =
     Some (Inl (Error ''boom''),
       [ExecuteCalled ''F'' 0 JNull, OnErrorCalled ''F'' (Error ''boom''),
        ExecuteCalled ''F'' 1 JNull, OnErrorCalled ''F'' (Error ''boom'')])"
  proof -
    have "\<forall>fuel. \<exists>w'. executeTask (Suc (2 * Suc 1 + fuel)) engineW ''F'' JNull newWorld =
              Some (Inl (Error ''boom''), w') \<and>
            trace w' = trace newWorld @
              concat (map (\<lambda>j. [ExecuteCalled ''F'' j JNull, OnErrorCalled ''F'' (Error ''boom'')])
                        [0 ..< Suc 1])"
      using W by simp
    then obtain w' where "executeTask (Suc (2 * Suc 1 + 0)) engineW ''F'' JNull newWorld =
              Some (Inl (Error ''boom''), w')"
        "trace w' = trace newWorld @
              concat (map (\<lambda>j. [ExecuteCalled ''F'' j JNull, OnErrorCalled ''F'' (Error ''boom'')])
                        [0 ..< Suc 1])"
      by blast
    then show ?thesis by (simp add: up newWorld_def)
  qed
  have v: "map_option (\<lambda>(r, w'). (r, trace w'))
     (executeTask (Suc (Suc (Suc 0))) engineV ''F'' JNull newWorld) =
     Some (Inr (JStr ''r''),
       [ExecuteCalled ''F'' 0 JNull, OnErrorCalled ''F'' (Error ''boom''),
        TaskExecution ''F'' 1])"
    using V valV by simp
  show ?thesis using r w v by simp
qed

text \<open>
  With \<open>retryCount = 1\<close> the handler is not kept for the end: it is invoked after the
  first failed attempt, before the retry.
\<close>

theorem onError_before_retry_counterexample:
  "executeTask (Suc (Suc (Suc (Suc (Suc 0))))) engineR ''F'' JNull newWorld =
     Some (Inl (Error ''boom''),
       newWorld\<lparr>runningTasks := {''F''},
         trace := [ExecuteCalled ''F'' 0 JNull, OnErrorCalled ''F'' (Error ''boom''),
                   ExecuteCalled ''F'' 1 JNull, OnErrorCalled ''F'' (Error ''boom'')]\<rparr>)"
  by (simp add: ex_defs run_defs Let_def)

subsection \<open>Successors\<close>

text \<open>
  The success path: when the destination resolved after a completed attempt is \<open>"end"\<close>,
  the engine saves the workflow and returns the result; no \<open>executeTask\<close> is called.
\<close>

lemma end_returns_on_success:
  assumes reg: "tasks E t = Some c"
    and run: "\<not> (aborted w \<and> \<not> gracefulShutdown w)" "dependenciesComplete c w" "t \<notin> runningTasks w"
    and nonneg: "0 \<le> retryLimit c"
    and inv: "invokeExecute E t c 0 d None (enter t w) = (Returns tr, rd, w1)"
    and live: "\<not> (aborted (completeAttempt E t (resultOf tr) w1) \<and>
                  \<not> gracefulShutdown (completeAttempt E t (resultOf tr) w1))"
    and res: "resolveNext rd (directNextOf tr)
                (route c (resultOf tr)
                   (executionContext.truncate (completeAttempt E t (resultOf tr) w1))) =
              Some (Single ''end'')"
  shows "executeTask (Suc (Suc fuel)) E t d w =
           Some (Inr (resultOf tr), saveWorkflow E (completeAttempt E t (resultOf tr) w1))"
proof -
  have nl: "(aborted (completeAttempt E t (resultOf tr) w1) \<and>
             \<not> gracefulShutdown (completeAttempt E t (resultOf tr) w1)) = False"
    using live by simp
  have "attemptLoop (Suc fuel) E t c d 0 (Fresh None) (enter t w) =
          Some (Inr (resultOf tr), saveWorkflow E (completeAttempt E t (resultOf tr) w1))"
    using inv nonneg res by (simp add: attemptOutcome_fresh Let_def nl)
  then show ?thesis using executeTask_enter [OF reg run nonneg] by simp
qed

text \<open>
  The \<open>onError\<close> path: a result of the handler completes the task, and the \<open>next\<close> of
  the handler is dispatched as it is. When it is \<open>"end"\<close> and no task has this name,
  \<open>executeTask("end")\<close> rejects, and the task that had recovered rethrows its error
  (here with no retry left).
\<close>

lemma end_dispatched_on_recovery:
  assumes reg: "tasks E t = Some c"
    and run: "\<not> (aborted w \<and> \<not> gracefulShutdown w)" "dependenciesComplete c w" "t \<notin> runningTasks w"
    and lim: "retryLimit c = 0"
    and h: "onError c = Some h"
    and throws: "settles (execute c 0 d (executionContext.truncate (enter t w))) = Throws (Error m)"
      "\<not> overran (execute c 0 d (executionContext.truncate (enter t w)))"
      "calls (execute c 0 d (executionContext.truncate (enter t w))) = []"
    and er: "\<forall>ctx. h (Error m) d ctx = Inr er" "result er \<noteq> JUndef"
      "next er = Some (Single ''end'')"
    and noend: "tasks E ''end'' = None"
  shows "\<exists>w'. executeTask (Suc (Suc (Suc fuel))) E t d w = Some (Inl (Error m), w') \<and>
           t \<in> completedTasks w' \<and> taskData w' t = Some (result er)"
proof -
  let ?b = "execute c 0 d (executionContext.truncate (enter t w))"
  let ?v1 = "(enter t w)\<lparr>trace := trace (enter t w) @ [ExecuteCalled t 0 d]\<rparr>"
  let ?w1 = "?v1\<lparr>trace := trace ?v1 @ [OnErrorCalled t (Error m)]\<rparr>"
  let ?w2 = "saveWorkflow E (markTaskComplete t (result er) ?w1)"
  have ab: "(aborted (enter t w) \<and> \<not> gracefulShutdown (enter t w)) = False"
    using run(1) by (simp add: enter_def resetTaskCompletion_def Let_def)
  have inv: "invokeExecute E t c 0 d None (enter t w) = (Throws (Error m), None, ?v1)"
    using throws by (simp add: invokeExecute_whole Let_def split: if_splits)
  have live: "(aborted ?w2 \<and> \<not> gracefulShutdown ?w2) = False"
    using ab by (simp add: saveWorkflow_def markTaskComplete_def emitTaskExecutionEvent_def Let_def)
  have all: "executeAll (\<lambda>t' c' d' p'. attemptLoop fuel E t' c' d' 0 (Begun p')) E
               (targets (next er) (result er)) ?w2 =
             Some (Some (Error (notFound ''end'')), ?w2)"
    using er(3) noend live by (simp add: executeAll_def startTask_def)
  have "catchBlock (Suc fuel) E t c d 0 None (Error m) ?v1 = Some (Inl (Error m), ?w2)"
    using h er lim all by (simp add: Let_def)
  then have "attemptLoop (Suc (Suc fuel)) E t c d 0 (Fresh None) (enter t w) =
               Some (Inl (Error m), ?w2)"
    using inv lim by (simp add: attemptOutcome_fresh)
  then have res: "executeTask (Suc (Suc (Suc fuel))) E t d w = Some (Inl (Error m), ?w2)"
    using executeTask_enter [OF reg run, of "Suc (Suc fuel)" d] lim by simp
  have "t \<in> completedTasks ?w2 \<and> taskData ?w2 t = Some (result er)"
    using ab by (auto simp: saveWorkflow_def markTaskComplete_def emitTaskExecutionEvent_def Let_def)
  then show ?thesis using res by blast
qed

text \<open>
  Claim C5 at a task that recovers through \<open>onError\<close>. \<open>F\<close> throws, and its handler
  returns \<open>{result: "r", next: "end"}\<close>. \<open>F\<close> is completed with \<open>"r"\<close>, but the
  engine does not return \<open>"r"\<close>: it calls \<open>executeTask("end", "r")\<close>, which rejects
  as no task has this name, and \<open>executeTask("F")\<close> rethrows the error of \<open>F\<close>. On
  the success path (task \<open>B\<close> of scenario 1, whose router returns \<open>"end"\<close>) the engine
  returns the result.
\<close>

theorem end_is_dispatched_after_onError:
  "map_option (\<lambda>(r, w'). (r, completedTasks w', taskData w' ''F'', trace w'))
     (executeTask (Suc (Suc (Suc 0))) engineE ''F'' JNull newWorld) =
     Some (Inl (Error ''boom''), {''F''}, Some (JStr ''r''),
       [ExecuteCalled ''F'' 0 JNull, OnErrorCalled ''F'' (Error ''boom''), TaskExecution ''F'' 1]) \<and>
   map_option (\<lambda>(r, w'). (r, completedTasks w', taskData w' ''B'', trace w'))
     (executeTask (Suc (Suc (Suc 0))) engineAB ''B'' (JStr ''hi'') newWorld) =
     Some (Inr (JStr ''hi done''), {''B''}, Some (JStr ''hi done''),
       [ExecuteCalled ''B'' 0 (JStr ''hi''), TaskExecution ''B'' 1, TaskExecution ''B'' 1])"
  by (simp add: ex_defs run_defs Let_def)

subsection \<open>Fan-out\<close>

text \<open>
  \<open>P\<close> fans out to \<open>X\<close>, \<open>Y\<close> and \<open>X\<close> again: \<open>execute\<close> of \<open>X\<close> and of \<open>Y\<close>
  is called before either completes, and the second call for \<open>X\<close> returns at the
  re-entrancy guard, so \<open>X\<close> runs once.
\<close>

lemma fan_out_starts_every_sibling:
  "map_option (\<lambda>(r, w'). (r, trace w'))
     (executeTask (Suc (Suc (Suc (Suc 0)))) engineP ''P'' JNull newWorld) =
   Some (Inr (JStr ''p''),
     [ExecuteCalled ''P'' 0 JNull, TaskExecution ''P'' 1, TaskExecution ''P'' 1,
      ExecuteCalled ''X'' 0 (JStr ''p''), ExecuteCalled ''Y'' 0 (JStr ''p''),
      TaskExecution ''X'' 1, TaskExecution ''X'' 1,
      TaskExecution ''Y'' 1, TaskExecution ''Y'' 1])"
  by (simp add: ex_defs run_defs Let_def)

text \<open>
  After a hard abort, a call of \<open>executeTask\<close> returns at once and \<open>markTaskComplete\<close>
  changes nothing.
\<close>

lemma executeTask_skipped_after_abort:
  "aborted w \<and> \<not> gracefulShutdown w \<Longrightarrow> executeTask (Suc fuel) E t d w = Some (Inr JUndef, w)"
  by (simp add: startTask_def)

lemma markTaskComplete_after_abort:
  "aborted w \<and> \<not> gracefulShutdown w \<Longrightarrow> markTaskComplete t d w = w"
  by (simp add: markTaskComplete_def)

text \<open>
  The path without a timeout: a task that calls \<open>interrupt(v)\<close> first, in a workflow
  that is not hard-aborted, is completed with \<open>v\<close>, the breakpoint is recorded and
  saved, and \<open>executeTask\<close> returns \<open>undefined\<close>.
\<close>

lemma interrupt_without_timeout:
  assumes reg: "tasks E t = Some c"
    and run: "\<not> (aborted w \<and> \<not> gracefulShutdown w)" "dependenciesComplete c w" "t \<notin> runningTasks w"
    and nt: "\<not> hasTimeout c" and nonneg: "0 \<le> retryLimit c"
    and first: "calls (execute c 0 d (executionContext.truncate (enter t w))) = Interrupt v # cs"
  shows "\<exists>w'. executeTask (Suc (Suc (Suc fuel))) E t d w = Some (Inr JUndef, w') \<and>
           t \<in> completedTasks w' \<and> t \<notin> runningTasks w' \<and> taskData w' t = Some v \<and>
           breakpointTask w' = Some t \<and> breakpointData w' = Some v \<and>
           breakpointId w' = Some (engine_uuidv4 E (uuids w)) \<and>
           (persistence E \<longrightarrow> last (trace w') = Saved (executionContext.truncate w'))"
proof -
  have dom: "t \<in> dom (tasks E)" using reg by auto
  have na: "(aborted w \<and> \<not> gracefulShutdown w) = False"
    using run(1) by simp
  have ab: "aborted (enter t w) = aborted w" "gracefulShutdown (enter t w) = gracefulShutdown w"
    by (simp_all add: enter_def resetTaskCompletion_def Let_def)
  let ?w0 = "(enter t w)\<lparr>trace := trace (enter t w) @ [ExecuteCalled t 0 d]\<rparr>"
  have mk: "markTaskComplete t v ?w0 =
      ?w0\<lparr>taskExecutionCounts := (taskExecutionCounts ?w0)(t \<mapsto> getTaskExecutionCount t ?w0 + 1),
           trace := trace ?w0 @ [TaskExecution t (getTaskExecutionCount t ?w0 + 1)],
           completedTasks := insert t (completedTasks ?w0),
           runningTasks := runningTasks ?w0 - {t},
           taskData := (taskData ?w0)(t \<mapsto> v)\<rparr>"
    by (simp add: markTaskComplete_def emitTaskExecutionEvent_def Let_def ab na)
  obtain w' where w': "createBreakpoint E t v (markTaskComplete t v ?w0) = Inr w'"
    "w' = saveWorkflow E ((markTaskComplete t v ?w0)
             \<lparr>breakpointId := Some (engine_uuidv4 E (uuids (markTaskComplete t v ?w0))),
              breakpointData := Some v, breakpointTask := Some t,
              uuids := Suc (uuids (markTaskComplete t v ?w0))\<rparr>)"
    using dom by (simp add: createBreakpoint_def)
  have inv: "invokeExecute E t c 0 d None (enter t w) =
               (Throws (BreakpointError ''Breakpoint created''), None, w')"
    using nt first w'(1) by (simp add: invokeExecute_whole Let_def)
  have "attemptLoop (Suc (Suc fuel)) E t c d 0 (Fresh None) (enter t w) = Some (Inr JUndef, w')"
    using inv nonneg by (simp add: attemptOutcome_fresh)
  then have res: "executeTask (Suc (Suc (Suc fuel))) E t d w = Some (Inr JUndef, w')"
    using executeTask_enter [OF reg run nonneg] by simp
  have props: "t \<in> completedTasks w' \<and> t \<notin> runningTasks w' \<and> taskData w' t = Some v \<and>
           breakpointTask w' = Some t \<and> breakpointData w' = Some v \<and>
           breakpointId w' = Some (engine_uuidv4 E (uuids w)) \<and>
           (persistence E \<longrightarrow> last (trace w') = Saved (executionContext.truncate w'))"
    unfolding w'(2) mk
    by (simp add: saveWorkflow_def executionContext.truncate_def enter_def
        resetTaskCompletion_def Let_def)
  show ?thesis using res props by blast
qed

text \<open>
  Claim C1 at a task with a timeout. Task \<open>H\<close> calls \<open>interrupt({q: "continue?"})\<close> and
  would return \<open>"done"\<close>. Registered with \<open>timeoutMs = 1000\<close>, its \<open>interrupt\<close> is
  the one of \<open>executeTaskWithTimeout\<close>: the task is not completed with the data, no
  breakpoint is recorded or saved, nothing is thrown, and the task completes with
  \<open>"done"\<close>. Registered without a timeout, the same task is completed with the data,
  the breakpoint is saved and \<open>executeTask\<close> returns \<open>undefined\<close>.
\<close>

theorem interrupt_is_ignored_under_timeout:
  "map_option (\<lambda>(r, w'). (r, breakpointTask w', taskData w' ''H'', savedBreakpoints (trace w')))
     (executeTask (Suc (Suc (Suc 0))) engineHT ''H'' JNull newWorld) =
     Some (Inr (JStr ''done''), None, Some (JStr ''done''), [None, None]) \<and>
   map_option (\<lambda>(r, w'). (r, breakpointTask w', taskData w' ''H'', savedBreakpoints (trace w')))
     (executeTask (Suc (Suc (Suc 0))) engineH ''H'' JNull newWorld) =
     Some (Inr JUndef, Some ''H'', Some (JObj [(''q'', JStr ''continue?'')]), [Some ''H''])"
  by (simp add: ex_defs run_defs Let_def)

text \<open>
  Claim C2 at scenario 1 of the spec (\<open>A\<close> routes to \<open>B\<close>, \<open>B\<close> to \<open>end\<close>): each
  completion is followed by two \<open>taskExecution\<close> events with the same count, one from
  \<open>markTaskComplete\<close> and one from \<open>executeTask\<close>.
\<close>

theorem taskExecution_emitted_twice:
  "map_option (\<lambda>(r, w'). (r, trace w'))
     (executeTask (Suc (Suc (Suc (Suc (Suc 0))))) engineAB ''A'' JUndef newWorld) =
   Some (Inr (JStr ''hi''),
     [ExecuteCalled ''A'' 0 JUndef, TaskExecution ''A'' 1, TaskExecution ''A'' 1,
      ExecuteCalled ''B'' 0 (JStr ''hi''), TaskExecution ''B'' 1, TaskExecution ''B'' 1])"
  by (simp add: ex_defs run_defs Let_def)

text \<open>
  A task without retries and without a handler whose attempt throws is left in
  \<open>runningTasks\<close>, and a later \<open>executeTask\<close> of it returns without an attempt.
\<close>

lemma runningTasks_enter [simp]: "runningTasks (enter t w) = insert t (runningTasks w)"
  by (simp add: enter_def resetTaskCompletion_def Let_def)

lemma failed_task_left_running:
  assumes reg: "tasks E t = Some c"
    and r0: "retryLimit c = 0"
    and noh: "onError c = None"
    and run: "\<not> (aborted w \<and> \<not> gracefulShutdown w)" "dependenciesComplete c w" "t \<notin> runningTasks w"
    and throws: "settles (execute c 0 d (executionContext.truncate (enter t w))) = Throws (Error m)"
      "\<not> overran (execute c 0 d (executionContext.truncate (enter t w)))"
      "\<forall>x. Interrupt x \<notin> set (calls (execute c 0 d (executionContext.truncate (enter t w))))"
  shows "\<exists>w'. executeTask (Suc (Suc (Suc fuel))) E t d w = Some (Inl (Error m), w') \<and>
           t \<in> runningTasks w' \<and>
           (\<exists>w''. executeTask (Suc fuel') E t d' w' = Some (Inr JUndef, w'') \<and>
                  trace w'' = trace w')"
proof -
  obtain rd' w' where inv: "invokeExecute E t c 0 d None (enter t w) = (Throws (Error m), rd', w')"
      "runningTasks w' = runningTasks (enter t w)"
    using invokeExecute_throws [OF throws] by blast
  have "attemptLoop (Suc (Suc fuel)) E t c d 0 (Fresh None) (enter t w) = Some (Inl (Error m), w')"
    using inv(1) r0 noh by (simp add: attemptOutcome_fresh)
  then have first: "executeTask (Suc (Suc (Suc fuel))) E t d w = Some (Inl (Error m), w')"
    using executeTask_enter [OF reg run, of "Suc (Suc fuel)" d] r0 by simp
  have still: "t \<in> runningTasks w'" using inv(2) by simp
  have "\<exists>w''. executeTask (Suc fuel') E t d' w' = Some (Inr JUndef, w'') \<and> trace w'' = trace w'"
    using reg still by (auto simp: startTask_def resetTaskCompletion_def Let_def)
  then show ?thesis using first still by blast
qed

text \<open>
  Claim C3 at a task that fails. \<open>F\<close> throws on its only attempt; the error is rethrown
  and \<open>F\<close> is still in \<open>runningTasks\<close>, where it stays: a second \<open>executeTask\<close> of
  \<open>F\<close> returns at the re-entrancy guard and changes nothing.
\<close>

theorem failed_task_stays_in_runningTasks:
  "map_option (\<lambda>(r, w'). (r, runningTasks w', trace w',
       executeTask (Suc (Suc (Suc 0))) engineF ''F'' JNull w' = Some (Inr JUndef, w')))
     (executeTask (Suc (Suc (Suc 0))) engineF ''F'' JNull newWorld) =
   Some (Inl (Error ''boom''), {''F''}, [ExecuteCalled ''F'' 0 JNull], True)"
  by (simp add: ex_defs run_defs Let_def)

text \<open>
  Claim C6 at a task that aborts. \<open>T\<close> calls \<open>abort(false)\<close> and returns. Its successor
  is not run and \<open>T\<close> is not marked complete, but \<open>executeTask\<close> still emits a
  \<open>taskExecution\<close> event for \<open>T\<close>, with the count \<open>0\<close>, after the abort.
\<close>

theorem taskExecution_emitted_after_abort:
  "map_option (\<lambda>(r, w'). (r, aborted w', gracefulShutdown w', completedTasks w', trace w'))
     (executeTask (Suc (Suc (Suc 0))) engineT ''T'' JNull newWorld) =
   Some (Inr (JStr ''x''), True, False, {}, [ExecuteCalled ''T'' 0 JNull, TaskExecution ''T'' 0])"
  by (simp add: ex_defs run_defs Let_def)

end
